theory Spec2Isabelle
  imports Main "HOL-Library.Log_Nat" "HOL-Library.Multiset"
begin

section \<open>Simple cluster analysis (proj3.c): a shallow embedding\<close>

text \<open>
  The program performs agglomerative clustering of labelled points of the plane.
  Every C function that the verified properties depend on is translated below, in the
  order of the source file.  Three things that C leaves implicit are made explicit:

  \<^item> a failed \<^verbatim>\<open>assert\<close> (the program is aborted) and undefined behaviour (a store or a
    load outside the allocated storage, the use of an indeterminate value, the overflow
    of an \<^verbatim>\<open>int\<close>) are the two values of the type \<open>fault\<close>; a function that can reach one
    of them returns \<open>fault + 'a\<close>;
  \<^item> \<^verbatim>\<open>realloc\<close> may fail: every function that allocates takes the allocator as a
    parameter, a predicate telling whether a request for \<open>n\<close> objects is granted;
  \<^item> \<^verbatim>\<open>float\<close> is IEEE 754 binary32 with every operation rounded to nearest, ties to
    even (the usual evaluation of \<^verbatim>\<open>float\<close> expressions, \<^verbatim>\<open>FLT_EVAL_METHOD == 0\<close>).
\<close>

datatype fault = Abort | Undefined

subsection \<open>Binary32 arithmetic\<close>

text \<open>
  A \<^verbatim>\<open>float\<close> is a finite value, an infinity or a NaN.  Finite values are kept as the
  rational number they denote; the two zeros are not distinguished (no operation of the
  program can tell them apart: it never divides by a \<^verbatim>\<open>float\<close> zero).
\<close>

datatype float = Fin rat | PInf | NInf | NaN

text \<open>\<open>ilog2 q\<close> is the binary exponent of a positive rational: \<open>2^e \<le> q < 2^(e+1)\<close>.\<close>

definition ilog2 :: "rat \<Rightarrow> int" where
  "ilog2 q = (let (a, b) = quotient_of q; e = bitlen a - bitlen b
              in if 2 powi e \<le> q then e else e - 1)"

definition round_even :: "rat \<Rightarrow> int" where
  "round_even q = (let f = \<lfloor>q\<rfloor>; r = q - of_int f
     in if r < 1 / 2 then f else if 1 / 2 < r then f + 1 else if even f then f else f + 1)"

text \<open>
  The spacing of binary32 numbers around a positive rational: 24 significant bits, and
  the fixed spacing \<open>2^-149\<close> of the subnormal range below \<open>2^-126\<close>.
\<close>

definition quantum :: "rat \<Rightarrow> rat" where
  "quantum q = 2 powi (max (ilog2 q) (- 126) - 23)"

definition rnd :: "rat \<Rightarrow> rat" where
  "rnd q = (if q = 0 then 0
            else sgn q * (of_int (round_even (\<bar>q\<bar> / quantum \<bar>q\<bar>)) * quantum \<bar>q\<bar>))"

text \<open>Rounding overflows to an infinity when the rounded magnitude reaches \<open>2^128\<close>.\<close>

definition to_float :: "rat \<Rightarrow> float" where
  "to_float q = (let r = rnd q
                 in if 2 ^ 128 \<le> r then PInf else if r \<le> - (2 ^ 128) then NInf else Fin r)"

fun fneg :: "float \<Rightarrow> float" where
  "fneg (Fin a) = Fin (- a)"
| "fneg PInf = NInf"
| "fneg NInf = PInf"
| "fneg NaN = NaN"

fun fadd :: "float \<Rightarrow> float \<Rightarrow> float" where
  "fadd (Fin a) (Fin b) = to_float (a + b)"
| "fadd NaN _ = NaN"
| "fadd _ NaN = NaN"
| "fadd PInf NInf = NaN"
| "fadd NInf PInf = NaN"
| "fadd PInf _ = PInf"
| "fadd _ PInf = PInf"
| "fadd NInf _ = NInf"
| "fadd _ NInf = NInf"

definition fsub :: "float \<Rightarrow> float \<Rightarrow> float" where
  "fsub a b = fadd a (fneg b)"

fun fmul :: "float \<Rightarrow> float \<Rightarrow> float" where
  "fmul (Fin a) (Fin b) = to_float (a * b)"
| "fmul NaN _ = NaN"
| "fmul _ NaN = NaN"
| "fmul (Fin a) PInf = (if a = 0 then NaN else if 0 < a then PInf else NInf)"
| "fmul (Fin a) NInf = (if a = 0 then NaN else if 0 < a then NInf else PInf)"
| "fmul PInf (Fin b) = (if b = 0 then NaN else if 0 < b then PInf else NInf)"
| "fmul NInf (Fin b) = (if b = 0 then NaN else if 0 < b then NInf else PInf)"
| "fmul PInf PInf = PInf"
| "fmul NInf NInf = PInf"
| "fmul PInf NInf = NInf"
| "fmul NInf PInf = NInf"

text \<open>
  Division; a finite zero divisor is taken as the positive zero (the only division of the
  program has a positive count as its divisor).
\<close>

fun fdiv :: "float \<Rightarrow> float \<Rightarrow> float" where
  "fdiv (Fin a) (Fin b) =
     (if b = 0 then (if a = 0 then NaN else if 0 < a then PInf else NInf)
      else to_float (a / b))"
| "fdiv NaN _ = NaN"
| "fdiv _ NaN = NaN"
| "fdiv (Fin a) PInf = Fin 0"
| "fdiv (Fin a) NInf = Fin 0"
| "fdiv PInf (Fin b) = (if 0 \<le> b then PInf else NInf)"
| "fdiv NInf (Fin b) = (if 0 \<le> b then NInf else PInf)"
| "fdiv PInf _ = NaN"
| "fdiv NInf _ = NaN"

text \<open>The integer square root, by the digit recurrence on base 4.\<close>

function isqrt :: "int \<Rightarrow> int" where
  "isqrt n = (if n < 2 then n
              else let r = 2 * isqrt (n div 4) in if (r + 1) * (r + 1) \<le> n then r + 1 else r)"
  by pat_completeness auto
termination
  by (relation "measure nat") auto

declare isqrt.simps [simp del]

text \<open>
  The correctly rounded square root of a positive rational: the 24-bit integer part \<open>m\<close>
  of the scaled root, then the comparison of the scaled argument with \<open>(m + 1/2)\<^sup>2\<close>.
\<close>

definition sqrt_rnd :: "rat \<Rightarrow> rat" where
  "sqrt_rnd r = (let k = ilog2 r div 2 - 23; y = r / (4 powi k); m = isqrt \<lfloor>y\<rfloor>;
                     h = (of_int m + 1 / 2) * (of_int m + 1 / 2)
                 in of_int (if y < h then m else if h < y then m + 1
                            else if even m then m else m + 1)
                    * 2 powi k)"

fun fsqrt :: "float \<Rightarrow> float" where
  "fsqrt (Fin a) = (if a < 0 then NaN else if a = 0 then Fin 0 else Fin (sqrt_rnd a))"
| "fsqrt PInf = PInf"
| "fsqrt NInf = NaN"
| "fsqrt NaN = NaN"

text \<open>The comparisons \<^verbatim>\<open>a > b\<close>, \<^verbatim>\<open>a < b\<close> and \<^verbatim>\<open>a >= b\<close>: false as soon as an operand is a NaN.\<close>

fun fgt :: "float \<Rightarrow> float \<Rightarrow> bool" where
  "fgt (Fin a) (Fin b) = (b < a)"
| "fgt NaN _ = False"
| "fgt _ NaN = False"
| "fgt PInf PInf = False"
| "fgt PInf _ = True"
| "fgt _ PInf = False"
| "fgt NInf _ = False"
| "fgt _ NInf = True"

definition flt :: "float \<Rightarrow> float \<Rightarrow> bool" where
  "flt a b = fgt b a"

fun fge :: "float \<Rightarrow> float \<Rightarrow> bool" where
  "fge (Fin a) (Fin b) = (b \<le> a)"
| "fge NaN _ = False"
| "fge _ NaN = False"
| "fge PInf _ = True"
| "fge _ NInf = True"
| "fge NInf _ = False"
| "fge _ PInf = False"

text \<open>The conversion of an \<^verbatim>\<open>int\<close> to \<^verbatim>\<open>float\<close>.\<close>

definition float_of_int :: "int \<Rightarrow> float" where
  "float_of_int n = to_float (of_int n)"

subsection \<open>Objects and clusters\<close>

text \<open>
  \<^verbatim>\<open>struct obj_t\<close> and \<^verbatim>\<open>struct cluster_t\<close>.  The field \<^verbatim>\<open>size\<close> and the initialised
  prefix \<^verbatim>\<open>obj[0 .. size-1]\<close> of the buffer are one list, \<open>obj\<close>: \<open>csize\<close> is its
  length.  The field \<^verbatim>\<open>capacity\<close>, the number of cells of the buffer, is kept as it is.
  Identifiers, sizes and capacities are integers, and a value stands for a structure of
  the program when they are at most \<^verbatim>\<open>INT_MAX\<close>.  The program only compares identifiers.
  It adds to a capacity, to a size and to the pair counter of the average distance: each
  of these additions is undefined when its result would exceed \<^verbatim>\<open>INT_MAX\<close>, and the
  model then faults.
\<close>

record obj_t =
  obj_id :: int
  obj_x :: float
  obj_y :: float

record cluster_t =
  capacity :: int
  obj :: "obj_t list"

definition csize :: "cluster_t \<Rightarrow> int" where
  "csize c = int (length (obj c))"

type_synonym allocator = "int \<Rightarrow> bool"

definition clear_cluster :: "cluster_t \<Rightarrow> cluster_t" where
  "clear_cluster c = c\<lparr>capacity := 0, obj := []\<rparr>"

definition CLUSTER_CHUNK :: int where
  "CLUSTER_CHUNK = 10"

definition INT_MAX :: int where
  "INT_MAX = 2147483647"

text \<open>
  \<^verbatim>\<open>resize_cluster\<close> returns the cluster, or \<^verbatim>\<open>NULL\<close> (here \<open>None\<close>) when \<^verbatim>\<open>realloc\<close>
  fails; the cluster is then left as it was.
\<close>

definition resize_cluster :: "allocator \<Rightarrow> cluster_t \<Rightarrow> int \<Rightarrow> fault + cluster_t option" where
  "resize_cluster al c new_cap =
     (if capacity c < 0 \<or> new_cap < 0 then Inl Abort
      else if new_cap \<le> capacity c then Inr (Some c)
      else if al new_cap then Inr (Some (c\<lparr>capacity := new_cap\<rparr>))
      else Inr None)"

text \<open>
  The loop \<^verbatim>\<open>while (size >= cap) cap += CLUSTER_CHUNK;\<close> of \<^verbatim>\<open>append_cluster\<close>.  The
  variable \<^verbatim>\<open>cap\<close> is an \<^verbatim>\<open>int\<close>: the addition overflows, which is undefined, when
  \<^verbatim>\<open>cap\<close> is above \<^verbatim>\<open>INT_MAX - CLUSTER_CHUNK\<close>.
\<close>

function grow_cap :: "int \<Rightarrow> int \<Rightarrow> fault + int" where
  "grow_cap sz cap =
     (if cap \<le> sz then
        (if INT_MAX - CLUSTER_CHUNK < cap then Inl Undefined
         else grow_cap sz (cap + CLUSTER_CHUNK))
      else Inr cap)"
  by pat_completeness auto
termination
  by (relation "measure (\<lambda>(sz, cap). nat (sz - cap + 1))") (auto simp: CLUSTER_CHUNK_def)

declare grow_cap.simps [simp del]

text \<open>
  \<^verbatim>\<open>append_cluster\<close> is a \<^verbatim>\<open>void\<close> function and drops the result of \<^verbatim>\<open>resize_cluster\<close>.
  The store \<^verbatim>\<open>c->obj[c->size++] = obj\<close> is inside the buffer exactly when the size is
  below the capacity the cluster has at that moment, and the increment of the size is
  defined when the size is below \<^verbatim>\<open>INT_MAX\<close>.
\<close>

definition append_cluster :: "allocator \<Rightarrow> cluster_t \<Rightarrow> obj_t \<Rightarrow> fault + cluster_t" where
  "append_cluster al c p =
     (case grow_cap (csize c) (capacity c) of
        Inl e \<Rightarrow> Inl e
      | Inr cap \<Rightarrow>
          (case resize_cluster al c cap of
             Inl e \<Rightarrow> Inl e
           | Inr r \<Rightarrow>
               (let c' = (case r of None \<Rightarrow> c | Some c'' \<Rightarrow> c'')
                in if csize c' < capacity c' \<and> csize c' < INT_MAX
                   then Inr (c'\<lparr>obj := obj c' @ [p]\<rparr>)
                   else Inl Undefined)))"

text \<open>
  \<^verbatim>\<open>sort_cluster\<close> calls \<^verbatim>\<open>qsort\<close> with a comparison of the identifiers.  The library
  function is modelled by insertion sort on the key \<open>obj_id\<close>; where identifiers are
  pairwise distinct, the result of any sorting function is this one.
\<close>

definition sort_cluster :: "cluster_t \<Rightarrow> cluster_t" where
  "sort_cluster c = c\<lparr>obj := sort_key obj_id (obj c)\<rparr>"

text \<open>The loop of \<^verbatim>\<open>merge_clusters\<close> over the objects of the second cluster.\<close>

fun append_all :: "allocator \<Rightarrow> cluster_t \<Rightarrow> obj_t list \<Rightarrow> fault + cluster_t" where
  "append_all al c [] = Inr c"
| "append_all al c (p # ps) =
     (case append_cluster al c p of Inl e \<Rightarrow> Inl e | Inr c' \<Rightarrow> append_all al c' ps)"

text \<open>
  \<^verbatim>\<open>merge_clusters(c1, c2)\<close> for two different clusters; the result is the new \<open>c1\<close>, and
  \<open>c2\<close> is not modified.
\<close>

definition merge_clusters :: "allocator \<Rightarrow> cluster_t \<Rightarrow> cluster_t \<Rightarrow> fault + cluster_t" where
  "merge_clusters al c1 c2 =
     (case append_all al c1 (obj c2) of Inl e \<Rightarrow> Inl e | Inr c \<Rightarrow> Inr (sort_cluster c))"

subsection \<open>Arrays of clusters\<close>

text \<open>
  The array is a list; \<open>narr\<close>, the number of clusters in use, is passed beside it as in
  the source.  An index outside the array is undefined behaviour.
\<close>

definition in_array :: "cluster_t list \<Rightarrow> int \<Rightarrow> bool" where
  "in_array carr i = (0 \<le> i \<and> i < int (length carr))"

function remove_loop :: "allocator \<Rightarrow> cluster_t list \<Rightarrow> int \<Rightarrow> int \<Rightarrow> fault + cluster_t list" where
  "remove_loop al carr narr idx =
     (if idx < narr then
        (if \<not> in_array carr idx then Inl Undefined
         else let carr1 = carr[nat idx := clear_cluster (carr ! nat idx)]
              in if idx \<noteq> narr - 1 then
                   (if \<not> in_array carr1 (idx + 1) then Inl Undefined
                    else case merge_clusters al (carr1 ! nat idx) (carr1 ! nat (idx + 1)) of
                           Inl e \<Rightarrow> Inl e
                         | Inr c \<Rightarrow> remove_loop al (carr1[nat idx := c]) narr (idx + 1))
                 else remove_loop al carr1 narr (idx + 1))
      else Inr carr)"
  by pat_completeness auto
termination
  by (relation "measure (\<lambda>(al, carr, narr, idx). nat (narr - idx))") auto

declare remove_loop.simps [simp del]

definition remove_cluster :: "allocator \<Rightarrow> cluster_t list \<Rightarrow> int \<Rightarrow> int \<Rightarrow> fault + (cluster_t list \<times> int)" where
  "remove_cluster al carr narr idx =
     (if \<not> idx < narr \<or> \<not> 0 < narr then Inl Abort
      else case remove_loop al carr narr idx of
             Inl e \<Rightarrow> Inl e
           | Inr carr' \<Rightarrow> Inr (carr', narr - 1))"

subsection \<open>Distances\<close>

definition obj_distance :: "obj_t \<Rightarrow> obj_t \<Rightarrow> float" where
  "obj_distance o1 o2 =
     (let a = fsub (obj_x o1) (obj_x o2);
          b = fsub (obj_y o1) (obj_y o2);
          a = fmul a a;
          b = fmul b b
      in fsqrt (fadd a b))"

text \<open>
  The two nested loops of the average method, with the accumulators
  \<^verbatim>\<open>object_distance\<close> and \<^verbatim>\<open>object_count\<close>.  The counter is an \<^verbatim>\<open>int\<close> that is
  incremented once for each pair of objects; incrementing \<^verbatim>\<open>INT_MAX\<close> is undefined.
\<close>

fun avg_row :: "obj_t \<Rightarrow> obj_t list \<Rightarrow> float \<times> int \<Rightarrow> fault + float \<times> int" where
  "avg_row p [] acc = Inr acc"
| "avg_row p (q # qs) (object_distance, object_count) =
     (if object_count = INT_MAX then Inl Undefined
      else avg_row p qs (fadd object_distance (obj_distance p q), object_count + 1))"

fun avg_rows :: "obj_t list \<Rightarrow> obj_t list \<Rightarrow> float \<times> int \<Rightarrow> fault + float \<times> int" where
  "avg_rows [] qs acc = Inr acc"
| "avg_rows (p # ps) qs acc =
     (case avg_row p qs acc of Inl e \<Rightarrow> Inl e | Inr acc' \<Rightarrow> avg_rows ps qs acc')"

text \<open>The loops of the nearest neighbour method (\<^verbatim>\<open>if (distance > new_distance)\<close>).\<close>

fun min_row :: "obj_t \<Rightarrow> obj_t list \<Rightarrow> float \<Rightarrow> float" where
  "min_row p [] distance = distance"
| "min_row p (q # qs) distance =
     (let new_distance = obj_distance p q
      in min_row p qs (if fgt distance new_distance then new_distance else distance))"

fun min_rows :: "obj_t list \<Rightarrow> obj_t list \<Rightarrow> float \<Rightarrow> float" where
  "min_rows [] qs distance = distance"
| "min_rows (p # ps) qs distance = min_rows ps qs (min_row p qs distance)"

text \<open>The loops of the furthest neighbour method (\<^verbatim>\<open>if (distance < new_distance)\<close>).\<close>

fun max_row :: "obj_t \<Rightarrow> obj_t list \<Rightarrow> float \<Rightarrow> float" where
  "max_row p [] distance = distance"
| "max_row p (q # qs) distance =
     (let new_distance = obj_distance p q
      in max_row p qs (if flt distance new_distance then new_distance else distance))"

fun max_rows :: "obj_t list \<Rightarrow> obj_t list \<Rightarrow> float \<Rightarrow> float" where
  "max_rows [] qs distance = distance"
| "max_rows (p # ps) qs distance = max_rows ps qs (max_row p qs distance)"

text \<open>
  \<^verbatim>\<open>cluster_distance\<close>; the global \<^verbatim>\<open>premium_case\<close> is its first parameter.  For a value
  other than 0, 1 and 2 the function returns a variable that was never assigned.
\<close>

definition cluster_distance :: "int \<Rightarrow> cluster_t \<Rightarrow> cluster_t \<Rightarrow> fault + float" where
  "cluster_distance premium_case c1 c2 =
     (if \<not> 0 < csize c1 \<or> \<not> 0 < csize c2 then Inl Abort
      else if premium_case = 0 then
        (case avg_rows (obj c1) (obj c2) (Fin 0, 0) of
           Inl e \<Rightarrow> Inl e
         | Inr (object_distance, object_count) \<Rightarrow>
             Inr (fdiv object_distance (float_of_int object_count)))
      else if premium_case = 1 then
        Inr (min_rows (obj c1) (obj c2) (obj_distance (obj c1 ! 0) (obj c2 ! 0)))
      else if premium_case = 2 then
        Inr (max_rows (obj c1) (obj c2) (obj_distance (obj c1 ! 0) (obj c2 ! 0)))
      else Inl Undefined)"

subsection \<open>The nearest pair of clusters\<close>

text \<open>
  The variables \<^verbatim>\<open>c1\<close> and \<^verbatim>\<open>c2\<close> of \<^verbatim>\<open>main\<close> are not initialised, and
  \<^verbatim>\<open>find_neighbours\<close> assigns them only when a comparison succeeds: they are optional
  values, \<open>None\<close> while indeterminate.
\<close>

function find_inner ::
  "int \<Rightarrow> cluster_t list \<Rightarrow> int \<Rightarrow> int \<Rightarrow> int \<Rightarrow> float \<times> int option \<times> int option
     \<Rightarrow> fault + (float \<times> int option \<times> int option)" where
  "find_inner pc carr narr i j (distance, c1, c2) =
     (if j < narr then
        (if \<not> in_array carr i \<or> \<not> in_array carr j then Inl Undefined
         else case cluster_distance pc (carr ! nat i) (carr ! nat j) of
                Inl e \<Rightarrow> Inl e
              | Inr new_dist \<Rightarrow>
                  find_inner pc carr narr i (j + 1)
                    (if fge distance new_dist then (new_dist, Some i, Some j)
                     else (distance, c1, c2)))
      else Inr (distance, c1, c2))"
  by pat_completeness auto
termination
  by (relation "measure (\<lambda>(pc, carr, narr, i, j, st). nat (narr - j))") auto

declare find_inner.simps [simp del]

function find_outer ::
  "int \<Rightarrow> cluster_t list \<Rightarrow> int \<Rightarrow> int \<Rightarrow> float \<times> int option \<times> int option
     \<Rightarrow> fault + (float \<times> int option \<times> int option)" where
  "find_outer pc carr narr i st =
     (if i < narr then
        (case find_inner pc carr narr i (i + 1) st of
           Inl e \<Rightarrow> Inl e
         | Inr st' \<Rightarrow> find_outer pc carr narr (i + 1) st')
      else Inr st)"
  by pat_completeness auto
termination
  by (relation "measure (\<lambda>(pc, carr, narr, i, st). nat (narr - i))") auto

declare find_outer.simps [simp del]

definition find_neighbours ::
  "int \<Rightarrow> cluster_t list \<Rightarrow> int \<Rightarrow> int option \<Rightarrow> int option \<Rightarrow> fault + (int option \<times> int option)" where
  "find_neighbours pc carr narr c1 c2 =
     (if \<not> 0 < narr then Inl Abort
      else if \<not> in_array carr 0 \<or> \<not> in_array carr 1 then Inl Undefined
      else case cluster_distance pc (carr ! 0) (carr ! 1) of
             Inl e \<Rightarrow> Inl e
           | Inr distance \<Rightarrow>
               (case find_outer pc carr narr 0 (distance, c1, c2) of
                  Inl e \<Rightarrow> Inl e
                | Inr (d, c1', c2') \<Rightarrow> Inr (c1', c2')))"

subsection \<open>The clustering loop of \<^verbatim>\<open>main\<close>\<close>

text \<open>
  The body of the loop without its last statement \<^verbatim>\<open>size--\<close>: \<^verbatim>\<open>find_neighbours\<close>,
  \<^verbatim>\<open>merge_clusters\<close> on the two clusters found, \<^verbatim>\<open>remove_cluster\<close> on the second one
  (its result is not used).  Merging a cluster into itself would not end (each append
  moves the bound of the loop), so equal indices are a fault of the model.
\<close>

definition driver_iteration ::
  "int \<Rightarrow> allocator \<Rightarrow> cluster_t list \<Rightarrow> int \<Rightarrow> int option \<Rightarrow> int option
     \<Rightarrow> fault + (cluster_t list \<times> int option \<times> int option)" where
  "driver_iteration pc al clusters sz c1 c2 =
     (case find_neighbours pc clusters sz c1 c2 of
        Inl e \<Rightarrow> Inl e
      | Inr (None, _) \<Rightarrow> Inl Undefined
      | Inr (Some _, None) \<Rightarrow> Inl Undefined
      | Inr (Some i, Some j) \<Rightarrow>
          (if \<not> in_array clusters i \<or> \<not> in_array clusters j \<or> i = j then Inl Undefined
           else case merge_clusters al (clusters ! nat i) (clusters ! nat j) of
                  Inl e \<Rightarrow> Inl e
                | Inr c \<Rightarrow>
                    (case remove_cluster al (clusters[nat i := c]) sz j of
                       Inl e \<Rightarrow> Inl e
                     | Inr (clusters', _) \<Rightarrow> Inr (clusters', Some i, Some j))))"

function cluster_loop ::
  "int \<Rightarrow> allocator \<Rightarrow> cluster_t list \<Rightarrow> int \<Rightarrow> int \<Rightarrow> int option \<Rightarrow> int option
     \<Rightarrow> fault + (cluster_t list \<times> int)" where
  "cluster_loop pc al clusters sz narr c1 c2 =
     (if narr < sz then
        (case driver_iteration pc al clusters sz c1 c2 of
           Inl e \<Rightarrow> Inl e
         | Inr (clusters', c1', c2') \<Rightarrow> cluster_loop pc al clusters' (sz - 1) narr c1' c2')
      else Inr (clusters, sz))"
  by pat_completeness auto
termination
  by (relation "measure (\<lambda>(pc, al, clusters, sz, narr, c1, c2). nat (sz - narr))") auto

declare cluster_loop.simps [simp del]

text \<open>The state after \<open>k\<close> passes through the body of the loop, whatever its condition.\<close>

fun iterations ::
  "nat \<Rightarrow> int \<Rightarrow> allocator \<Rightarrow> cluster_t list \<Rightarrow> int \<Rightarrow> int option \<Rightarrow> int option
     \<Rightarrow> fault + (cluster_t list \<times> int \<times> int option \<times> int option)" where
  "iterations 0 pc al clusters sz c1 c2 = Inr (clusters, sz, c1, c2)"
| "iterations (Suc k) pc al clusters sz c1 c2 =
     (case driver_iteration pc al clusters sz c1 c2 of
        Inl e \<Rightarrow> Inl e
      | Inr (clusters', c1', c2') \<Rightarrow> iterations k pc al clusters' (sz - 1) c1' c2')"

text \<open>The objects of the clusters in use, in the order of the array.\<close>

definition points :: "cluster_t list \<Rightarrow> int \<Rightarrow> obj_t list" where
  "points carr narr = concat (map obj (take (nat narr) carr))"

text \<open>Two allocators: one that grants every request, one that grants none.\<close>

definition unlimited :: allocator where
  "unlimited n = True"

definition exhausted :: allocator where
  "exhausted n = False"

subsection \<open>The function \<^verbatim>\<open>main\<close>\<close>

text \<open>
  The choice of the method from the fourth word of the command line.  The global
  \<^verbatim>\<open>premium_case\<close> is zero when the program starts; \<^verbatim>\<open>strcmp\<close> returns zero on equal
  strings.
\<close>

definition select_method :: "string list \<Rightarrow> int" where
  "select_method argv =
     (if 3 < length argv then
        (let premium_case = 0;
             premium_case = (if argv ! 3 = ''--min'' then 1 else premium_case)
         in if argv ! 3 = ''--max'' then 2 else premium_case)
      else 0)"

text \<open>
  \<^verbatim>\<open>main\<close> returns the exit status; the model also returns the clusters handed to
  \<^verbatim>\<open>print_clusters\<close>.  Two parts of the environment are parameters: \<open>strtol\<close> gives the
  value assigned to \<^verbatim>\<open>narr\<close> and the rest of the string that it did not read, and
  \<open>load_clusters\<close> gives, for a file name, the value returned by \<^verbatim>\<open>load_clusters\<close> and
  the array that it stored through its second argument.  The functions that read the
  file and print the result (\<^verbatim>\<open>load_clusters\<close> with \<^verbatim>\<open>init_cluster\<close>, \<^verbatim>\<open>print_cluster\<close>,
  \<^verbatim>\<open>print_clusters\<close>) are not translated.
\<close>

definition main ::
  "(string \<Rightarrow> int \<times> string) \<Rightarrow> (string \<Rightarrow> int \<times> cluster_t list) \<Rightarrow> allocator \<Rightarrow> string list
     \<Rightarrow> fault + int \<times> cluster_t list" where
  "main strtol load_clusters al argv =
     (let argc = int (length argv)
      in if argc < 2 then Inr (- 1, [])
         else
           let premium_case = select_method argv;
               parsed = (if 2 < argc then
                           (case strtol (argv ! 2) of
                              (n, fail) \<Rightarrow>
                                if fail \<noteq> [] then None else if n \<le> 0 then None else Some n)
                         else Some 1)
           in case parsed of
                None \<Rightarrow> Inr (- 1, [])
              | Some narr \<Rightarrow>
                  (case load_clusters (argv ! 1) of
                     (sz, clusters) \<Rightarrow>
                       if sz = 0 then Inr (- 1, [])
                       else if sz < narr \<and> sz \<noteq> 0 then Inr (- 1, [])
                       else case cluster_loop premium_case al clusters sz narr None None of
                              Inl e \<Rightarrow> Inl e
                            | Inr (clusters', sz') \<Rightarrow> Inr (0, take (nat sz') clusters')))"

subsection \<open>Well-formed input\<close>

text \<open>
  The loader only admits coordinates between 0 and 1000, hence finite ones, and creates
  one cluster of one object for each line.  The properties of the core are stated for
  collections of non-empty clusters whose coordinates are finite, whose sizes are within
  their capacities, and with few enough objects for the pair counter (hence also for
  the capacities, which stay far below \<^verbatim>\<open>INT_MAX\<close>).
\<close>

fun is_finite :: "float \<Rightarrow> bool" where
  "is_finite (Fin a) = True"
| "is_finite PInf = False"
| "is_finite NInf = False"
| "is_finite NaN = False"

definition finite_obj :: "obj_t \<Rightarrow> bool" where
  "finite_obj p = (is_finite (obj_x p) \<and> is_finite (obj_y p))"

definition valid_cluster :: "cluster_t \<Rightarrow> bool" where
  "valid_cluster c = (obj c \<noteq> [] \<and> csize c \<le> capacity c \<and> list_all finite_obj (obj c))"

definition valid_collection :: "cluster_t list \<Rightarrow> int \<Rightarrow> bool" where
  "valid_collection carr narr =
     (0 \<le> narr \<and> narr \<le> int (length carr) \<and>
      list_all valid_cluster (take (nat narr) carr) \<and>
      int (length (points carr narr)) * int (length (points carr narr)) \<le> INT_MAX)"

text \<open>The values that a distance takes on such input: a non-negative number or \<open>+\<infinity>\<close>.\<close>

fun fnonneg :: "float \<Rightarrow> bool" where
  "fnonneg (Fin a) = (0 \<le> a)"
| "fnonneg PInf = True"
| "fnonneg NInf = False"
| "fnonneg NaN = False"

text \<open>
  The order of two distances up to a relative error \<open>e\<close>: \<open>x (1 - e) \<le> y\<close>, and every
  distance is below \<open>+\<infinity>\<close>.
\<close>

fun fle_within :: "rat \<Rightarrow> float \<Rightarrow> float \<Rightarrow> bool" where
  "fle_within e (Fin x) (Fin y) = (x * (1 - e) \<le> y)"
| "fle_within e (Fin x) PInf = True"
| "fle_within e PInf PInf = True"
| "fle_within e _ _ = False"

section \<open>The cluster store\<close>

lemma grow_cap_ok:
  "sz \<le> INT_MAX - CLUSTER_CHUNK \<Longrightarrow> \<exists>k. grow_cap sz cap = Inr k \<and> sz < k \<and> cap \<le> k"
proof (induction sz cap rule: grow_cap.induct)
  case (1 sz cap)
  show ?case
  proof (cases "cap \<le> sz")
    case True
    then have n: "\<not> INT_MAX - CLUSTER_CHUNK < cap" using 1 by simp
    from "1.IH"[OF True n "1.prems"] obtain k where
      "grow_cap sz (cap + CLUSTER_CHUNK) = Inr k" "sz < k" "cap + CLUSTER_CHUNK \<le> k"
      by blast
    then show ?thesis using True n
      by (subst grow_cap.simps) (simp add: CLUSTER_CHUNK_def)
  next
    case False
    then show ?thesis by (subst grow_cap.simps) simp
  qed
qed

text \<open>
  The capacity of a full cluster cannot be raised once it is above
  \<^verbatim>\<open>INT_MAX - CLUSTER_CHUNK\<close>: the addition overflows.
\<close>

lemma grow_cap_overflow:
  "cap \<le> sz \<Longrightarrow> INT_MAX - CLUSTER_CHUNK < cap \<Longrightarrow> grow_cap sz cap = Inl Undefined"
  by (subst grow_cap.simps) simp

lemma append_cluster_overflow:
  "capacity c \<le> csize c \<Longrightarrow> INT_MAX - CLUSTER_CHUNK < capacity c \<Longrightarrow>
   append_cluster al c p = Inl Undefined"
  by (simp add: append_cluster_def grow_cap_overflow)

lemma append_cluster_ok:
  assumes "\<forall>n. al n" and "0 \<le> capacity c" and "csize c \<le> INT_MAX - CLUSTER_CHUNK"
  shows "\<exists>k. csize c < k \<and> capacity c \<le> k \<and>
             append_cluster al c p = Inr (c\<lparr>capacity := k, obj := obj c @ [p]\<rparr>)"
proof -
  from grow_cap_ok[OF assms(3), of "capacity c"] obtain k where
    k: "grow_cap (csize c) (capacity c) = Inr k" "csize c < k" "capacity c \<le> k"
    by blast
  have 3: "0 \<le> k" using k(3) assms(2) by simp
  have 4: "csize c < INT_MAX" using assms(3) by (simp add: CLUSTER_CHUNK_def)
  have "append_cluster al c p = Inr (c\<lparr>capacity := k, obj := obj c @ [p]\<rparr>)"
  proof (cases "k \<le> capacity c")
    case True
    then have "capacity c = k" using k(3) by simp
    then show ?thesis using k(1,2) 3 4 assms(1,2)
      by (simp add: append_cluster_def resize_cluster_def Let_def)
  next
    case False
    then show ?thesis using k(1,2) 3 4 assms(1,2)
      by (simp add: append_cluster_def resize_cluster_def Let_def csize_def)
  qed
  then show ?thesis using k(2,3) by blast
qed

lemma append_all_ok:
  assumes "\<forall>n. al n"
  shows "0 \<le> capacity c \<Longrightarrow> csize c + int (length ps) \<le> INT_MAX - CLUSTER_CHUNK \<Longrightarrow>
         \<exists>k. 0 \<le> k \<and> (ps \<noteq> [] \<longrightarrow> csize c + int (length ps) \<le> k) \<and>
             (ps = [] \<longrightarrow> k = capacity c) \<and>
             append_all al c ps = Inr (c\<lparr>capacity := k, obj := obj c @ ps\<rparr>)"
proof (induction ps arbitrary: c)
  case Nil
  then show ?case by simp
next
  case (Cons p ps)
  have b: "csize c \<le> INT_MAX - CLUSTER_CHUNK" using Cons.prems(2) by simp
  from append_cluster_ok[OF assms Cons.prems(1) b, of p] obtain k0 where
    k0: "csize c < k0" "capacity c \<le> k0"
    and a: "append_cluster al c p = Inr (c\<lparr>capacity := k0, obj := obj c @ [p]\<rparr>)"
    by blast
  let ?c = "c\<lparr>capacity := k0, obj := obj c @ [p]\<rparr>"
  have c0: "0 \<le> capacity ?c" using k0(2) Cons.prems(1) by simp
  have c1: "csize ?c + int (length ps) \<le> INT_MAX - CLUSTER_CHUNK"
    using Cons.prems(2) by (simp add: csize_def)
  from Cons.IH[OF c0 c1] obtain k where k: "0 \<le> k"
    "ps \<noteq> [] \<longrightarrow> csize ?c + int (length ps) \<le> k"
    "ps = [] \<longrightarrow> k = capacity ?c"
    "append_all al ?c ps = Inr (?c\<lparr>capacity := k, obj := obj ?c @ ps\<rparr>)"
    by blast
  have "csize c + int (length (p # ps)) \<le> k"
    using k(2,3) k0(1) by (cases "ps = []") (auto simp: csize_def)
  then show ?case using a k by auto
qed

lemma merge_clusters_ok:
  assumes "\<forall>n. al n" and "0 \<le> capacity c1"
    and "csize c1 + csize c2 \<le> INT_MAX - CLUSTER_CHUNK"
  shows "\<exists>k. 0 \<le> k \<and> (csize c1 \<le> capacity c1 \<longrightarrow> csize c1 + csize c2 \<le> k) \<and>
             merge_clusters al c1 c2 =
             Inr (c1\<lparr>capacity := k, obj := sort_key obj_id (obj c1 @ obj c2)\<rparr>)"
proof -
  have b: "csize c1 + int (length (obj c2)) \<le> INT_MAX - CLUSTER_CHUNK"
    using assms(3) by (simp add: csize_def)
  from append_all_ok[OF assms(1,2) b] obtain k where k: "0 \<le> k"
    "obj c2 \<noteq> [] \<longrightarrow> csize c1 + int (length (obj c2)) \<le> k"
    "obj c2 = [] \<longrightarrow> k = capacity c1"
    "append_all al c1 (obj c2) = Inr (c1\<lparr>capacity := k, obj := obj c1 @ obj c2\<rparr>)"
    by blast
  have "csize c1 \<le> capacity c1 \<longrightarrow> csize c1 + csize c2 \<le> k"
    using k(2,3) by (cases "obj c2 = []") (auto simp: csize_def)
  then show ?thesis using k(1,4) by (auto simp: merge_clusters_def sort_cluster_def)
qed

text \<open>
  C7.  When no allocation fails, the two clusters together hold at most
  \<^verbatim>\<open>INT_MAX - CLUSTER_CHUNK\<close> objects (so that no capacity overflows) and their identifiers
  are pairwise distinct, \<^verbatim>\<open>merge_clusters\<close> returns normally, the objects of the target
  are then in strictly ascending order of identifier, and they are the objects of the
  target and of the source together.  This is the only place where clusters grow, so
  every cluster produced by a merge is sorted.
\<close>

theorem merge_clusters_sorted_by_id:
  assumes "\<forall>n. al n" and "0 \<le> capacity c1"
    and "csize c1 + csize c2 \<le> INT_MAX - CLUSTER_CHUNK"
    and "distinct (map obj_id (obj c1 @ obj c2))"
  shows "\<exists>c. merge_clusters al c1 c2 = Inr c \<and> sorted_wrt (<) (map obj_id (obj c)) \<and>
             mset (obj c) = mset (obj c1) + mset (obj c2)"
proof -
  from merge_clusters_ok[OF assms(1,2,3)] obtain k where
    m: "merge_clusters al c1 c2 =
        Inr (c1\<lparr>capacity := k, obj := sort_key obj_id (obj c1 @ obj c2)\<rparr>)"
    by blast
  let ?ys = "sort_key obj_id (obj c1 @ obj c2)"
  have "mset (map obj_id ?ys) = mset (map obj_id (obj c1 @ obj c2))" by simp
  then have "distinct (map obj_id ?ys)" using assms(4) mset_eq_imp_distinct_iff by blast
  moreover have "sorted (map obj_id ?ys)" by simp
  ultimately have "sorted_wrt (<) (map obj_id ?ys)" by (simp add: strict_sorted_iff)
  then show ?thesis using m by simp
qed

theorem merge_clusters_sorted_by_id_witness:
  "(\<forall>n. unlimited n) \<and>
   0 \<le> capacity \<lparr>capacity = 1, obj = [\<lparr>obj_id = 3, obj_x = Fin 3, obj_y = Fin 3\<rparr>]\<rparr> \<and>
   csize \<lparr>capacity = 1, obj = [\<lparr>obj_id = 3, obj_x = Fin 3, obj_y = Fin 3\<rparr>]\<rparr> +
   csize \<lparr>capacity = 1, obj = [\<lparr>obj_id = 1, obj_x = Fin 1, obj_y = Fin 1\<rparr>]\<rparr>
     \<le> INT_MAX - CLUSTER_CHUNK \<and>
   distinct (map obj_id (obj \<lparr>capacity = 1, obj = [\<lparr>obj_id = 3, obj_x = Fin 3, obj_y = Fin 3\<rparr>]\<rparr> @
                         obj \<lparr>capacity = 1, obj = [\<lparr>obj_id = 1, obj_x = Fin 1, obj_y = Fin 1\<rparr>]\<rparr>)) \<and>
   (\<exists>c. merge_clusters unlimited
          \<lparr>capacity = 1, obj = [\<lparr>obj_id = 3, obj_x = Fin 3, obj_y = Fin 3\<rparr>]\<rparr>
          \<lparr>capacity = 1, obj = [\<lparr>obj_id = 1, obj_x = Fin 1, obj_y = Fin 1\<rparr>]\<rparr> = Inr c \<and>
        sorted_wrt (<) (map obj_id (obj c)) \<and>
        mset (obj c) =
          mset (obj \<lparr>capacity = 1, obj = [\<lparr>obj_id = 3, obj_x = Fin 3, obj_y = Fin 3\<rparr>]\<rparr>) +
          mset (obj \<lparr>capacity = 1, obj = [\<lparr>obj_id = 1, obj_x = Fin 1, obj_y = Fin 1\<rparr>]\<rparr>))"
  using merge_clusters_sorted_by_id [of unlimited
          "\<lparr>capacity = 1, obj = [\<lparr>obj_id = 3, obj_x = Fin 3, obj_y = Fin 3\<rparr>]\<rparr>"
          "\<lparr>capacity = 1, obj = [\<lparr>obj_id = 1, obj_x = Fin 1, obj_y = Fin 1\<rparr>]\<rparr>"]
  by (simp add: unlimited_def csize_def INT_MAX_def CLUSTER_CHUNK_def)

text \<open>
  C8.  \<^verbatim>\<open>resize_cluster\<close> reports a failed allocation by returning \<^verbatim>\<open>NULL\<close>, but
  \<^verbatim>\<open>append_cluster\<close> does not look at that result.  On a full cluster of capacity 1 and
  an allocator that grants nothing, the request for 11 objects fails, the cluster keeps
  its capacity, and the store of the new object goes past the end of the buffer.
\<close>

theorem append_cluster_ignores_failed_resize:
  "resize_cluster exhausted
     \<lparr>capacity = 1, obj = [\<lparr>obj_id = 1, obj_x = Fin 1, obj_y = Fin 1\<rparr>]\<rparr> 11 = Inr None \<and>
   append_cluster exhausted
     \<lparr>capacity = 1, obj = [\<lparr>obj_id = 1, obj_x = Fin 1, obj_y = Fin 1\<rparr>]\<rparr>
     \<lparr>obj_id = 2, obj_x = Fin 2, obj_y = Fin 2\<rparr> = Inl Undefined"
  by (simp add: resize_cluster_def append_cluster_def exhausted_def csize_def
        grow_cap.simps CLUSTER_CHUNK_def INT_MAX_def)

section \<open>Removing a cluster from the array\<close>

lemma remove_loop_ok:
  assumes al: "\<forall>n. al n"
  shows "i \<le> n \<Longrightarrow> n \<le> length carr \<Longrightarrow>
    \<forall>k. i < k \<and> k < n \<longrightarrow> csize (carr ! k) \<le> INT_MAX - CLUSTER_CHUNK \<Longrightarrow>
    \<exists>carr'. remove_loop al carr (int n) (int i) = Inr carr' \<and> length carr' = length carr \<and>
      (\<forall>k<length carr.
         (k < i \<or> n \<le> k \<longrightarrow> carr' ! k = carr ! k) \<and>
         (i \<le> k \<and> Suc k < n \<longrightarrow>
            obj (carr' ! k) = sort_key obj_id (obj (carr ! Suc k)) \<and>
            csize (carr' ! k) \<le> capacity (carr' ! k)) \<and>
         (i \<le> k \<and> Suc k = n \<longrightarrow> carr' ! k = clear_cluster (carr ! k)))"
proof (induction "n - i" arbitrary: i carr)
  case 0
  then have "i = n" by simp
  then show ?case by (subst remove_loop.simps) auto
next
  case (Suc d)
  then have lt: "i < n" and il: "i < length carr" by simp_all
  let ?carr1 = "carr[i := clear_cluster (carr ! i)]"
  have d: "d = n - Suc i" using Suc.hyps(2) by simp
  show ?case
  proof (cases "Suc i = n")
    case True
    have "Suc i \<le> n" "n \<le> length ?carr1" using lt Suc.prems by simp_all
    moreover have "\<forall>k. Suc i < k \<and> k < n \<longrightarrow> csize (?carr1 ! k) \<le> INT_MAX - CLUSTER_CHUNK"
      using True by simp
    ultimately obtain carr' where
      r: "remove_loop al ?carr1 (int n) (int (Suc i)) = Inr carr'"
         "length carr' = length ?carr1"
      and n: "\<forall>k<length ?carr1. (k < Suc i \<or> n \<le> k \<longrightarrow> carr' ! k = ?carr1 ! k)"
      using Suc.hyps(1)[OF d, of ?carr1] by blast
    have "remove_loop al carr (int n) (int i) = Inr carr'"
      using lt il True r(1)
      by (subst remove_loop.simps) (auto simp: in_array_def Let_def add.commute)
    moreover have "\<forall>k<length carr.
         (k < i \<or> n \<le> k \<longrightarrow> carr' ! k = carr ! k) \<and>
         (i \<le> k \<and> Suc k < n \<longrightarrow>
            obj (carr' ! k) = sort_key obj_id (obj (carr ! Suc k)) \<and>
            csize (carr' ! k) \<le> capacity (carr' ! k)) \<and>
         (i \<le> k \<and> Suc k = n \<longrightarrow> carr' ! k = clear_cluster (carr ! k))"
      using n True il by (auto simp: nth_list_update)
    ultimately show ?thesis using r(2) by auto
  next
    case False
    then have si: "Suc i < n" using lt by simp
    then have sil: "Suc i < length carr" using Suc.prems by simp
    have c0: "0 \<le> capacity (?carr1 ! i)" "csize (?carr1 ! i) \<le> capacity (?carr1 ! i)"
      using il by (simp_all add: clear_cluster_def csize_def)
    have "csize (carr ! Suc i) \<le> INT_MAX - CLUSTER_CHUNK" using Suc.prems(3) si by simp
    then have c1: "csize (?carr1 ! i) + csize (?carr1 ! Suc i) \<le> INT_MAX - CLUSTER_CHUNK"
      using il sil by (simp add: clear_cluster_def csize_def)
    from merge_clusters_ok[OF al c0(1) c1] c0(2) obtain cp where
      cp: "csize (?carr1 ! i) + csize (?carr1 ! Suc i) \<le> cp"
      and m: "merge_clusters al (?carr1 ! i) (?carr1 ! Suc i) =
        Inr ((?carr1 ! i)\<lparr>capacity := cp,
               obj := sort_key obj_id (obj (?carr1 ! i) @ obj (?carr1 ! Suc i))\<rparr>)"
      by blast
    define c where "c = (?carr1 ! i)\<lparr>capacity := cp,
               obj := sort_key obj_id (obj (?carr1 ! i) @ obj (?carr1 ! Suc i))\<rparr>"
    have c: "obj c = sort_key obj_id (obj (carr ! Suc i))" "csize c \<le> capacity c"
      using il sil cp by (simp_all add: c_def clear_cluster_def csize_def)
    let ?carr2 = "?carr1[i := c]"
    have "Suc i \<le> n" "n \<le> length ?carr2" using lt Suc.prems by simp_all
    moreover have "\<forall>k. Suc i < k \<and> k < n \<longrightarrow> csize (?carr2 ! k) \<le> INT_MAX - CLUSTER_CHUNK"
      using Suc.prems(3) by simp
    ultimately obtain carr' where
      r: "remove_loop al ?carr2 (int n) (int (Suc i)) = Inr carr'"
         "length carr' = length ?carr2"
      and n: "\<forall>k<length ?carr2.
         (k < Suc i \<or> n \<le> k \<longrightarrow> carr' ! k = ?carr2 ! k) \<and>
         (Suc i \<le> k \<and> Suc k < n \<longrightarrow>
            obj (carr' ! k) = sort_key obj_id (obj (?carr2 ! Suc k)) \<and>
            csize (carr' ! k) \<le> capacity (carr' ! k)) \<and>
         (Suc i \<le> k \<and> Suc k = n \<longrightarrow> carr' ! k = clear_cluster (?carr2 ! k))"
      using Suc.hyps(1)[OF d, of ?carr2] by blast
    have "remove_loop al carr (int n) (int i) = Inr carr'"
      using lt il sil si r(1) m unfolding c_def[symmetric]
      by (subst remove_loop.simps)
         (auto simp: in_array_def Let_def add.commute nat_add_distrib)
    moreover have "\<forall>k<length carr.
         (k < i \<or> n \<le> k \<longrightarrow> carr' ! k = carr ! k) \<and>
         (i \<le> k \<and> Suc k < n \<longrightarrow>
            obj (carr' ! k) = sort_key obj_id (obj (carr ! Suc k)) \<and>
            csize (carr' ! k) \<le> capacity (carr' ! k)) \<and>
         (i \<le> k \<and> Suc k = n \<longrightarrow> carr' ! k = clear_cluster (carr ! k))"
    proof (intro allI impI)
      fix k assume k: "k < length carr"
      show "(k < i \<or> n \<le> k \<longrightarrow> carr' ! k = carr ! k) \<and>
         (i \<le> k \<and> Suc k < n \<longrightarrow>
            obj (carr' ! k) = sort_key obj_id (obj (carr ! Suc k)) \<and>
            csize (carr' ! k) \<le> capacity (carr' ! k)) \<and>
         (i \<le> k \<and> Suc k = n \<longrightarrow> carr' ! k = clear_cluster (carr ! k))"
      proof (cases "k = i")
        case True
        then have "carr' ! k = c" using n k il by simp
        then show ?thesis using True c si by simp
      next
        case False
        then show ?thesis using n k il si by (auto simp: nth_list_update)
      qed
    qed
    ultimately show ?thesis using r(2) by auto
  qed
qed

lemma msets_after_remove:
  assumes "i < n" and "n \<le> length carr" and "length carr' = length carr"
    and "\<forall>k<length carr.
         (k < i \<longrightarrow> carr' ! k = carr ! k) \<and>
         (i \<le> k \<and> Suc k < n \<longrightarrow> obj (carr' ! k) = sort_key obj_id (obj (carr ! Suc k)))"
  shows "map (\<lambda>c. mset (obj c)) (take (n - 1) carr') =
         map (\<lambda>c. mset (obj c)) (take i carr) @
         map (\<lambda>c. mset (obj c)) (take (n - 1 - i) (drop (Suc i) carr))"
proof (rule nth_equalityI)
  show "length (map (\<lambda>c. mset (obj c)) (take (n - 1) carr')) =
        length (map (\<lambda>c. mset (obj c)) (take i carr) @
                map (\<lambda>c. mset (obj c)) (take (n - 1 - i) (drop (Suc i) carr)))"
    using assms(1,2,3) by simp
next
  fix k assume "k < length (map (\<lambda>c. mset (obj c)) (take (n - 1) carr'))"
  then have k: "k < n - 1" using assms(1,2,3) by simp
  then have kl: "k < length carr" "Suc k < length carr" using assms(2) by simp_all
  show "map (\<lambda>c. mset (obj c)) (take (n - 1) carr') ! k =
        (map (\<lambda>c. mset (obj c)) (take i carr) @
         map (\<lambda>c. mset (obj c)) (take (n - 1 - i) (drop (Suc i) carr))) ! k"
  proof (cases "k < i")
    case True
    then show ?thesis using k kl assms by (simp add: nth_append)
  next
    case False
    then have "obj (carr' ! k) = sort_key obj_id (obj (carr ! Suc k))"
      using assms(4) k kl by simp
    then show ?thesis using False k kl assms(1,2,3) by (simp add: nth_append)
  qed
qed

lemma take_split_at:
  assumes "i < n" and "n \<le> length carr"
  shows "take n carr = take i carr @ carr ! i # take (n - 1 - i) (drop (Suc i) carr)"
proof -
  have "take n carr = take i (take n carr) @ (take n carr) ! i # drop (Suc i) (take n carr)"
    using assms by (intro id_take_nth_drop) simp
  also have "take i (take n carr) = take i carr" using assms by (simp add: min_def)
  also have "take n carr ! i = carr ! i" using assms by simp
  also have "drop (Suc i) (take n carr) = take (n - 1 - i) (drop (Suc i) carr)"
    using assms by (simp add: drop_take)
  finally show ?thesis .
qed

lemma remove_cluster_ok:
  assumes al: "\<forall>n. al n" and "i < n" and "n \<le> length carr"
    and "\<forall>k. i < k \<and> k < n \<longrightarrow> csize (carr ! k) \<le> INT_MAX - CLUSTER_CHUNK"
  shows "\<exists>carr'. remove_cluster al carr (int n) (int i) = Inr (carr', int n - 1) \<and>
      length carr' = length carr \<and>
      (\<forall>k<length carr.
         (k < i \<or> n \<le> k \<longrightarrow> carr' ! k = carr ! k) \<and>
         (i \<le> k \<and> Suc k < n \<longrightarrow>
            obj (carr' ! k) = sort_key obj_id (obj (carr ! Suc k)) \<and>
            csize (carr' ! k) \<le> capacity (carr' ! k)) \<and>
         (i \<le> k \<and> Suc k = n \<longrightarrow> carr' ! k = clear_cluster (carr ! k))) \<and>
      mset (points carr' (int n - 1)) + mset (obj (carr ! i)) = mset (points carr (int n))"
proof -
  have "i \<le> n" using assms(2) by simp
  from remove_loop_ok[OF al this assms(3,4)] obtain carr' where
    r: "remove_loop al carr (int n) (int i) = Inr carr'" and len: "length carr' = length carr"
    and nth: "\<forall>k<length carr.
         (k < i \<or> n \<le> k \<longrightarrow> carr' ! k = carr ! k) \<and>
         (i \<le> k \<and> Suc k < n \<longrightarrow>
            obj (carr' ! k) = sort_key obj_id (obj (carr ! Suc k)) \<and>
            csize (carr' ! k) \<le> capacity (carr' ! k)) \<and>
         (i \<le> k \<and> Suc k = n \<longrightarrow> carr' ! k = clear_cluster (carr ! k))"
    by blast
  have 1: "remove_cluster al carr (int n) (int i) = Inr (carr', int n - 1)"
    using r assms(2) by (simp add: remove_cluster_def)
  have a: "map (\<lambda>c. mset (obj c)) (take (n - 1) carr') =
         map (\<lambda>c. mset (obj c)) (take i carr) @
         map (\<lambda>c. mset (obj c)) (take (n - 1 - i) (drop (Suc i) carr))"
    using nth by (intro msets_after_remove assms(2,3) len) auto
  have b: "take n carr = take i carr @ carr ! i # take (n - 1 - i) (drop (Suc i) carr)"
    by (intro take_split_at assms(2,3))
  have nn: "nat (int n - 1) = n - 1" using assms(2) by simp
  have p1: "mset (points carr' (int n - 1)) =
      sum_list (map (\<lambda>c. mset (obj c)) (take i carr)) +
      sum_list (map (\<lambda>c. mset (obj c)) (take (n - 1 - i) (drop (Suc i) carr)))"
  proof -
    have "sum_list (map (\<lambda>c. mset (obj c)) (take (n - 1) carr')) =
      sum_list (map (\<lambda>c. mset (obj c)) (take i carr)) +
      sum_list (map (\<lambda>c. mset (obj c)) (take (n - 1 - i) (drop (Suc i) carr)))"
      by (subst a) simp
    moreover have "mset (points carr' (int n - 1)) =
      sum_list (map (\<lambda>c. mset (obj c)) (take (n - 1) carr'))"
      unfolding points_def nn mset_concat by (simp only: map_map comp_def)
    ultimately show ?thesis by simp
  qed
  have "mset (points carr (int n)) = sum_list (map (\<lambda>c. mset (obj c)) (take n carr))"
    by (simp add: points_def mset_concat comp_def)
  also have "\<dots> = sum_list (map (\<lambda>c. mset (obj c)) (take i carr)) + mset (obj (carr ! i)) +
      sum_list (map (\<lambda>c. mset (obj c)) (take (n - 1 - i) (drop (Suc i) carr)))"
    by (subst b) simp
  finally have 5: "mset (points carr' (int n - 1)) + mset (obj (carr ! i)) =
      mset (points carr (int n))"
    using p1 by simp
  show ?thesis using 1 len nth 5 by blast
qed



section \<open>Properties of the binary32 operations\<close>

lemma ilog2_bounds:
  assumes "0 < q"
  shows "2 powi (ilog2 q) \<le> q \<and> q < 2 powi (ilog2 q + 1)"
proof -
  obtain a b where ab: "quotient_of q = (a, b)" by (cases "quotient_of q")
  have b: "0 < b" using ab quotient_of_denom_pos by blast
  have q: "q = of_int a / of_int b" using ab quotient_of_div by blast
  have a: "0 < a" using assms b q by (simp add: zero_less_divide_iff)
  define la lb where "la = bitlen a" and "lb = bitlen b"
  have la: "2 ^ nat (la - 1) \<le> a" "a < 2 ^ nat la"
    using bitlen_bounds[OF a] by (simp_all add: la_def)
  have lb: "2 ^ nat (lb - 1) \<le> b" "b < 2 ^ nat lb"
    using bitlen_bounds[OF b] by (simp_all add: lb_def)
  have la1: "1 \<le> la"
    by (metis a bitlen_eq_zero_iff bitlen_nonneg int_one_le_iff_zero_less la_def nle_le
        verit_comp_simplify1(3))
  have lb1: "1 \<le> lb"
    by (metis b bitlen_eq_zero_iff bitlen_nonneg int_one_le_iff_zero_less lb_def nle_le
        verit_comp_simplify1(3))
  have "(2::rat) powi (la - 1) = of_int (2 ^ nat (la - 1))"
    using la1 by (simp add: power_int_def)
  then have A1: "(2::rat) powi (la - 1) \<le> of_int a" using la(1) by (simp only: of_int_le_iff)
  have "(2::rat) powi la = of_int (2 ^ nat la)"
    using la1 by (simp add: power_int_def)
  then have A2: "of_int a < (2::rat) powi la" using la(2) by (simp only: of_int_less_iff)
  have "(2::rat) powi (lb - 1) = of_int (2 ^ nat (lb - 1))"
    using lb1 by (simp add: power_int_def)
  then have B1: "(2::rat) powi (lb - 1) \<le> of_int b" using lb(1) by (simp only: of_int_le_iff)
  have "(2::rat) powi lb = of_int (2 ^ nat lb)"
    using lb1 by (simp add: power_int_def)
  then have B2: "of_int b < (2::rat) powi lb" using lb(2) by (simp only: of_int_less_iff)
  have "q < 2 powi la / 2 powi (lb - 1)"
    unfolding q using a A2 B1 by (intro frac_less) simp_all
  also have "\<dots> = 2 powi (la - (lb - 1))" by (simp add: power_int_diff)
  finally have up: "q < 2 powi (la - lb + 1)" by (simp add: algebra_simps)
  have "(2::rat) powi (la - 1 - lb) = 2 powi (la - 1) / 2 powi lb"
    by (simp add: power_int_diff)
  also have "\<dots> \<le> q"
    unfolding q using a b A1 B2 by (intro frac_le) simp_all
  finally have low: "2 powi (la - lb - 1) \<le> q" by (simp add: algebra_simps)
  show ?thesis
    using up low ab by (auto simp: ilog2_def Let_def la_def lb_def)
qed

lemma power_int_2_mono: "a \<le> b \<Longrightarrow> (2::rat) powi a \<le> 2 powi b"
  by (rule power_int_increasing) simp_all

lemma ilog2_unique:
  assumes "0 < q" and "2 powi e \<le> q" and "q < 2 powi (e + 1)"
  shows "ilog2 q = e"
proof (rule ccontr)
  assume ne: "ilog2 q \<noteq> e"
  from ilog2_bounds[OF assms(1)] have b: "2 powi (ilog2 q) \<le> q" "q < 2 powi (ilog2 q + 1)"
    by simp_all
  show False
  proof (cases "ilog2 q < e")
    case True
    then have "(2::rat) powi (ilog2 q + 1) \<le> 2 powi e" by (intro power_int_2_mono) simp
    then show False using b(2) assms(2) by simp
  next
    case False
    then have "e + 1 \<le> ilog2 q" using ne by simp
    then have "(2::rat) powi (e + 1) \<le> 2 powi (ilog2 q)" by (intro power_int_2_mono)
    then show False using b(1) assms(3) by simp
  qed
qed

lemma round_even_floor: "\<lfloor>q\<rfloor> \<le> round_even q \<and> round_even q \<le> \<lfloor>q\<rfloor> + 1"
  by (simp add: round_even_def Let_def)

lemma round_even_ge: "of_int a \<le> q \<Longrightarrow> a \<le> round_even q"
proof -
  assume "of_int a \<le> q"
  then have "a \<le> \<lfloor>q\<rfloor>" by (simp add: le_floor_iff)
  then show ?thesis using round_even_floor[of q] by simp
qed

lemma round_even_le: "q \<le> of_int b \<Longrightarrow> round_even q \<le> b"
proof -
  assume q: "q \<le> of_int b"
  show ?thesis
  proof (cases "q = of_int b")
    case True
    then show ?thesis by (simp add: round_even_def)
  next
    case False
    then have "q < of_int b" using q by simp
    then have "\<lfloor>q\<rfloor> < b" by (simp add: floor_less_iff)
    then show ?thesis using round_even_floor[of q] by simp
  qed
qed

lemma quantum_pos: "0 < quantum q"
  by (simp add: quantum_def)

lemma rnd_nonneg: "0 \<le> q \<Longrightarrow> 0 \<le> rnd q"
proof -
  assume q: "0 \<le> q"
  have "0 \<le> \<bar>q\<bar> / quantum \<bar>q\<bar>" using quantum_pos[of "\<bar>q\<bar>"] by simp
  then have "0 \<le> round_even (\<bar>q\<bar> / quantum \<bar>q\<bar>)" using round_even_ge[of 0] by simp
  then show ?thesis using q quantum_pos[of "\<bar>q\<bar>"] by (simp add: rnd_def sgn_if)
qed

lemma rnd_minus: "rnd (- q) = - rnd q"
  by (simp add: rnd_def sgn_if)

lemma to_float_minus: "to_float (- q) = fneg (to_float q)"
  by (auto simp: to_float_def rnd_minus Let_def)

text \<open>Rounding stays within the binade of its argument.\<close>

lemma rnd_binade:
  assumes "0 < q" and "- 126 \<le> ilog2 q"
  shows "2 powi (ilog2 q) \<le> rnd q \<and> rnd q \<le> 2 powi (ilog2 q + 1)"
proof -
  define e where "e = ilog2 q"
  have b: "2 powi e \<le> q" "q < 2 powi (e + 1)" using ilog2_bounds[OF assms(1)] by (simp_all add: e_def)
  have qu: "quantum q = 2 powi (e - 23)" using assms(2) by (simp add: quantum_def e_def)
  have "q / 2 powi (e - 23) = q * 2 powi (23 - e)"
    by (simp add: power_int_diff field_simps)
  have lo: "of_int (2 ^ 23) \<le> q / 2 powi (e - 23)"
  proof -
    have "(2::rat) powi e / 2 powi (e - 23) = 2 powi (e - (e - 23))"
      by (subst power_int_diff) simp_all
    then have "(2::rat) powi e / 2 powi (e - 23) = 2 ^ 23" by simp
    moreover have "(2::rat) powi e / 2 powi (e - 23) \<le> q / 2 powi (e - 23)"
      using b(1) by (intro divide_right_mono) simp_all
    ultimately show ?thesis by simp
  qed
  have hi: "q / 2 powi (e - 23) \<le> of_int (2 ^ 24)"
  proof -
    have "(2::rat) powi (e + 1) / 2 powi (e - 23) = 2 powi (e + 1 - (e - 23))"
      by (subst power_int_diff) simp_all
    then have "(2::rat) powi (e + 1) / 2 powi (e - 23) = 2 ^ 24" by simp
    moreover have "q / 2 powi (e - 23) \<le> (2::rat) powi (e + 1) / 2 powi (e - 23)"
      using b(2) by (intro divide_right_mono) simp_all
    ultimately show ?thesis by simp
  qed
  define m where "m = round_even (q / 2 powi (e - 23))"
  have m: "2 ^ 23 \<le> m" "m \<le> 2 ^ 24"
    using round_even_ge[OF lo] round_even_le[OF hi] by (simp_all add: m_def)
  have "of_int (2 ^ 23 :: int) \<le> (of_int m :: rat)" using m(1) by (simp only: of_int_le_iff)
  then have m1: "(2::rat) ^ 23 \<le> of_int m" by simp
  have "(of_int m :: rat) \<le> of_int (2 ^ 24 :: int)" using m(2) by (simp only: of_int_le_iff)
  then have m2: "of_int m \<le> (2::rat) ^ 24" by simp
  have r: "rnd q = of_int m * 2 powi (e - 23)"
    using assms(1) qu by (simp add: rnd_def m_def)
  have "(2::rat) powi e = 2 ^ 23 * 2 powi (e - 23)"
    by (simp add: power_int_diff)
  also have "\<dots> \<le> of_int m * 2 powi (e - 23)"
    using m1 by (intro mult_right_mono) simp_all
  finally have 1: "2 powi e \<le> rnd q" using r by simp
  have "of_int m * (2::rat) powi (e - 23) \<le> 2 ^ 24 * 2 powi (e - 23)"
    using m2 by (intro mult_right_mono) simp_all
  also have "\<dots> = 2 powi (e + 1)"
    by (simp add: power_int_diff power_int_add)
  finally have 2: "rnd q \<le> 2 powi (e + 1)" using r by simp
  show ?thesis using 1 2 by (simp add: e_def)
qed

lemma isqrt_correct: "0 \<le> n \<Longrightarrow> 0 \<le> isqrt n \<and> isqrt n * isqrt n \<le> n \<and> n < (isqrt n + 1) * (isqrt n + 1)"
proof (induction n rule: isqrt.induct)
  case (1 n)
  show ?case
  proof (cases "n < 2")
    case True
    then have "isqrt n = n" by (subst isqrt.simps) simp
    moreover have "n = 0 \<or> n = 1" using True "1.prems" by auto
    ultimately show ?thesis by auto
  next
    case False
    define s where "s = isqrt (n div 4)"
    have "0 \<le> n div 4" using "1.prems" by simp
    from "1.IH"[OF False this] have s: "0 \<le> s" "s * s \<le> n div 4" "n div 4 < (s + 1) * (s + 1)"
      by (simp_all add: s_def)
    have d: "4 * (n div 4) \<le> n" "n < 4 * (n div 4) + 4" by simp_all
    have lo: "(2 * s) * (2 * s) \<le> n" using s(2) d(1) by (simp add: algebra_simps)
    have hi: "n < (2 * s + 2) * (2 * s + 2)" using s(3) d(2) by (simp add: algebra_simps)
    have e: "isqrt n = (if (2 * s + 1) * (2 * s + 1) \<le> n then 2 * s + 1 else 2 * s)"
      using False by (subst isqrt.simps) (simp add: s_def Let_def)
    show ?thesis
    proof (cases "(2 * s + 1) * (2 * s + 1) \<le> n")
      case True
      then show ?thesis using e s(1) hi by (simp add: algebra_simps)
    next
      case False
      then show ?thesis using e s(1) lo by (simp add: algebra_simps)
    qed
  qed
qed

lemma sqrt_rnd_nonneg: "0 < a \<Longrightarrow> 0 \<le> sqrt_rnd a"
proof -
  assume a: "0 < a"
  define y where "y = a / (4 powi (ilog2 a div 2 - 23))"
  have "0 \<le> y" using a by (simp add: y_def)
  then have "0 \<le> \<lfloor>y\<rfloor>" by simp
  then have "0 \<le> isqrt \<lfloor>y\<rfloor>" using isqrt_correct by blast
  then show ?thesis by (simp add: sqrt_rnd_def Let_def y_def[symmetric])
qed

lemma fnonneg_cases: "fnonneg x \<longleftrightarrow> x = PInf \<or> (\<exists>r\<ge>0. x = Fin r)"
  by (cases x) auto

lemma to_float_fnonneg: "0 \<le> q \<Longrightarrow> fnonneg (to_float q)"
  using rnd_nonneg[of q] by (simp add: to_float_def Let_def)

lemma to_float_not_NaN: "to_float q \<noteq> NaN"
  by (simp add: to_float_def Let_def)

lemma fsub_finite_not_NaN: "is_finite a \<Longrightarrow> is_finite b \<Longrightarrow> fsub a b \<noteq> NaN"
  by (cases a; cases b) (simp_all add: fsub_def to_float_not_NaN)

lemma fmul_self_fnonneg: "a \<noteq> NaN \<Longrightarrow> fnonneg (fmul a a)"
  by (cases a) (simp_all add: to_float_fnonneg)

lemma fadd_fnonneg: "fnonneg a \<Longrightarrow> fnonneg b \<Longrightarrow> fnonneg (fadd a b)"
  by (cases a; cases b) (simp_all add: to_float_fnonneg)

lemma fsqrt_fnonneg: "fnonneg a \<Longrightarrow> fnonneg (fsqrt a)"
  by (cases a) (auto simp: sqrt_rnd_nonneg)

lemma obj_distance_fnonneg:
  "finite_obj p \<Longrightarrow> finite_obj q \<Longrightarrow> fnonneg (obj_distance p q)"
  unfolding obj_distance_def Let_def finite_obj_def
  by (intro fsqrt_fnonneg fadd_fnonneg fmul_self_fnonneg fsub_finite_not_NaN) simp_all

lemma float_of_int_pos:
  assumes "1 \<le> n" and "n \<le> INT_MAX"
  shows "\<exists>r. float_of_int n = Fin r \<and> 0 < r"
proof -
  define q :: rat where "q = of_int n"
  have q: "1 \<le> q" "q < 2 ^ 31" using assms by (simp_all add: q_def INT_MAX_def)
  then have q0: "0 < q" by simp
  from ilog2_bounds[OF q0] have b: "2 powi (ilog2 q) \<le> q" "q < 2 powi (ilog2 q + 1)" by simp_all
  have e0: "0 \<le> ilog2 q"
  proof (rule ccontr)
    assume "\<not> 0 \<le> ilog2 q"
    then have "(2::rat) powi (ilog2 q + 1) \<le> 2 powi 0" by (intro power_int_2_mono) simp
    then show False using b(2) q(1) by simp
  qed
  have e1: "ilog2 q + 1 \<le> 31"
  proof (rule ccontr)
    assume "\<not> ilog2 q + 1 \<le> 31"
    then have "(2::rat) powi 31 \<le> 2 powi (ilog2 q)" by (intro power_int_2_mono) simp
    then show False using b(1) q(2) by simp
  qed
  from rnd_binade[OF q0] e0 have r: "2 powi (ilog2 q) \<le> rnd q" "rnd q \<le> 2 powi (ilog2 q + 1)"
    by simp_all
  have "(2::rat) powi (ilog2 q + 1) \<le> 2 powi 31" using e1 by (intro power_int_2_mono)
  then have "rnd q \<le> 2 ^ 31" using r(2) by simp
  then have lt: "rnd q < 2 ^ 128" by (rule order_le_less_trans) simp
  have "(0::rat) < 2 powi (ilog2 q)" by simp
  then have pos: "0 < rnd q" using r(1) by (rule less_le_trans)
  have "float_of_int n = Fin (rnd q)"
    using lt pos by (simp add: float_of_int_def to_float_def Let_def q_def)
  then show ?thesis using pos by blast
qed

lemma fdiv_fnonneg:
  assumes "fnonneg d" and "1 \<le> n" and "n \<le> INT_MAX"
  shows "fnonneg (fdiv d (float_of_int n))"
proof -
  from float_of_int_pos[OF assms(2,3)] obtain r where r: "float_of_int n = Fin r" "0 < r"
    by blast
  show ?thesis using assms(1) r by (cases d) (simp_all add: to_float_fnonneg)
qed

text \<open>On these values the comparisons of C are those of a linear order.\<close>

lemma fge_refl: "fnonneg a \<Longrightarrow> fge a a"
  by (cases a) simp_all

lemma fge_total: "fnonneg a \<Longrightarrow> fnonneg b \<Longrightarrow> fge a b \<or> fge b a"
  by (cases a; cases b) auto

lemma fge_trans: "fge a b \<Longrightarrow> fge b c \<Longrightarrow> fge a c"
  by (cases a; cases b; cases c) auto

lemma fge_antisym: "fge a b \<Longrightarrow> fge b a \<Longrightarrow> a = b"
  by (cases a; cases b) auto

lemma fgt_iff: "fnonneg a \<Longrightarrow> fnonneg b \<Longrightarrow> fgt a b \<longleftrightarrow> \<not> fge b a"
  by (cases a; cases b) auto

lemma flt_iff: "fnonneg a \<Longrightarrow> fnonneg b \<Longrightarrow> flt a b \<longleftrightarrow> \<not> fge a b"
  by (cases a; cases b) (auto simp: flt_def)

section \<open>Distances between clusters\<close>

lemma fsub_swap: "fsub b a = fneg (fsub a b)"
proof (cases a; cases b)
  fix x y assume "a = Fin x" "b = Fin y"
  then show ?thesis using to_float_minus[of "x - y"] by (simp add: fsub_def)
qed (simp_all add: fsub_def)

lemma fmul_fneg_self: "fmul (fneg a) (fneg a) = fmul a a"
  by (cases a) simp_all

lemma obj_distance_sym: "obj_distance p q = obj_distance q p"
proof -
  have x: "fsub (obj_x q) (obj_x p) = fneg (fsub (obj_x p) (obj_x q))" by (rule fsub_swap)
  have y: "fsub (obj_y q) (obj_y p) = fneg (fsub (obj_y p) (obj_y q))" by (rule fsub_swap)
  show ?thesis by (simp only: obj_distance_def Let_def x y fmul_fneg_self)
qed

text \<open>The nearest neighbour loops return a least element of the distances they scan.\<close>

lemma min_row_spec:
  assumes "fnonneg d" and "\<forall>q\<in>set qs. fnonneg (obj_distance p q)"
  shows "fnonneg (min_row p qs d) \<and>
         (min_row p qs d = d \<or> min_row p qs d \<in> obj_distance p ` set qs) \<and>
         fge d (min_row p qs d) \<and>
         (\<forall>q\<in>set qs. fge (obj_distance p q) (min_row p qs d))"
  using assms
proof (induction qs arbitrary: d)
  case Nil
  then show ?case by (simp add: fge_refl)
next
  case (Cons q qs)
  define d' where "d' = (if fgt d (obj_distance p q) then obj_distance p q else d)"
  have nq: "fnonneg (obj_distance p q)" using Cons.prems(2) by simp
  have d': "fnonneg d'" "fge d d'" "fge (obj_distance p q) d'" "d' = d \<or> d' = obj_distance p q"
    using Cons.prems(1) nq fgt_iff[OF Cons.prems(1) nq] fge_total[OF Cons.prems(1) nq]
    by (auto simp: d'_def fge_refl)
  have IH: "fnonneg (min_row p qs d') \<and>
         (min_row p qs d' = d' \<or> min_row p qs d' \<in> obj_distance p ` set qs) \<and>
         fge d' (min_row p qs d') \<and>
         (\<forall>q\<in>set qs. fge (obj_distance p q) (min_row p qs d'))"
    using Cons.IH[OF d'(1)] Cons.prems(2) by simp
  have e: "min_row p (q # qs) d = min_row p qs d'" by (simp add: d'_def Let_def)
  have 1: "fge d (min_row p qs d')" using fge_trans[OF d'(2)] IH by blast
  have 2: "fge (obj_distance p q) (min_row p qs d')" using fge_trans[OF d'(3)] IH by blast
  show ?case unfolding e using IH d'(4) 1 2 by auto
qed

lemma min_rows_spec:
  assumes "fnonneg d" and "\<forall>p\<in>set ps. \<forall>q\<in>set qs. fnonneg (obj_distance p q)"
  shows "fnonneg (min_rows ps qs d) \<and>
         (min_rows ps qs d = d \<or> (\<exists>p\<in>set ps. \<exists>q\<in>set qs. min_rows ps qs d = obj_distance p q)) \<and>
         fge d (min_rows ps qs d) \<and>
         (\<forall>p\<in>set ps. \<forall>q\<in>set qs. fge (obj_distance p q) (min_rows ps qs d))"
  using assms
proof (induction ps arbitrary: d)
  case Nil
  then show ?case by (simp add: fge_refl)
next
  case (Cons p ps)
  define d' where "d' = min_row p qs d"
  have "\<forall>q\<in>set qs. fnonneg (obj_distance p q)" using Cons.prems(2) by simp
  from min_row_spec[OF Cons.prems(1) this]
  have d': "fnonneg d'" "d' = d \<or> d' \<in> obj_distance p ` set qs" "fge d d'"
    "\<forall>q\<in>set qs. fge (obj_distance p q) d'"
    by (simp_all add: d'_def)
  have IH: "fnonneg (min_rows ps qs d') \<and>
         (min_rows ps qs d' = d' \<or> (\<exists>p\<in>set ps. \<exists>q\<in>set qs. min_rows ps qs d' = obj_distance p q)) \<and>
         fge d' (min_rows ps qs d') \<and>
         (\<forall>p\<in>set ps. \<forall>q\<in>set qs. fge (obj_distance p q) (min_rows ps qs d'))"
    using Cons.IH[OF d'(1)] Cons.prems(2) by simp
  have e: "min_rows (p # ps) qs d = min_rows ps qs d'" by (simp add: d'_def)
  have 1: "fge d (min_rows ps qs d')" using fge_trans[OF d'(3)] IH by blast
  have 2: "\<forall>q\<in>set qs. fge (obj_distance p q) (min_rows ps qs d')"
    using d'(4) fge_trans IH by blast
  show ?case unfolding e using IH d'(2) 1 2 by auto
qed

lemma max_row_spec:
  assumes "fnonneg d" and "\<forall>q\<in>set qs. fnonneg (obj_distance p q)"
  shows "fnonneg (max_row p qs d) \<and>
         (max_row p qs d = d \<or> max_row p qs d \<in> obj_distance p ` set qs) \<and>
         fge (max_row p qs d) d \<and>
         (\<forall>q\<in>set qs. fge (max_row p qs d) (obj_distance p q))"
  using assms
proof (induction qs arbitrary: d)
  case Nil
  then show ?case by (simp add: fge_refl)
next
  case (Cons q qs)
  define d' where "d' = (if flt d (obj_distance p q) then obj_distance p q else d)"
  have nq: "fnonneg (obj_distance p q)" using Cons.prems(2) by simp
  have d': "fnonneg d'" "fge d' d" "fge d' (obj_distance p q)" "d' = d \<or> d' = obj_distance p q"
    using Cons.prems(1) nq flt_iff[OF Cons.prems(1) nq] fge_total[OF Cons.prems(1) nq]
    by (auto simp: d'_def fge_refl)
  have IH: "fnonneg (max_row p qs d') \<and>
         (max_row p qs d' = d' \<or> max_row p qs d' \<in> obj_distance p ` set qs) \<and>
         fge (max_row p qs d') d' \<and>
         (\<forall>q\<in>set qs. fge (max_row p qs d') (obj_distance p q))"
    using Cons.IH[OF d'(1)] Cons.prems(2) by simp
  have e: "max_row p (q # qs) d = max_row p qs d'" by (simp add: d'_def Let_def)
  have 1: "fge (max_row p qs d') d" using fge_trans[OF _ d'(2)] IH by blast
  have 2: "fge (max_row p qs d') (obj_distance p q)" using fge_trans[OF _ d'(3)] IH by blast
  show ?case unfolding e using IH d'(4) 1 2 by auto
qed

lemma max_rows_spec:
  assumes "fnonneg d" and "\<forall>p\<in>set ps. \<forall>q\<in>set qs. fnonneg (obj_distance p q)"
  shows "fnonneg (max_rows ps qs d) \<and>
         (max_rows ps qs d = d \<or> (\<exists>p\<in>set ps. \<exists>q\<in>set qs. max_rows ps qs d = obj_distance p q)) \<and>
         fge (max_rows ps qs d) d \<and>
         (\<forall>p\<in>set ps. \<forall>q\<in>set qs. fge (max_rows ps qs d) (obj_distance p q))"
  using assms
proof (induction ps arbitrary: d)
  case Nil
  then show ?case by (simp add: fge_refl)
next
  case (Cons p ps)
  define d' where "d' = max_row p qs d"
  have "\<forall>q\<in>set qs. fnonneg (obj_distance p q)" using Cons.prems(2) by simp
  from max_row_spec[OF Cons.prems(1) this]
  have d': "fnonneg d'" "d' = d \<or> d' \<in> obj_distance p ` set qs" "fge d' d"
    "\<forall>q\<in>set qs. fge d' (obj_distance p q)"
    by (simp_all add: d'_def)
  have IH: "fnonneg (max_rows ps qs d') \<and>
         (max_rows ps qs d' = d' \<or> (\<exists>p\<in>set ps. \<exists>q\<in>set qs. max_rows ps qs d' = obj_distance p q)) \<and>
         fge (max_rows ps qs d') d' \<and>
         (\<forall>p\<in>set ps. \<forall>q\<in>set qs. fge (max_rows ps qs d') (obj_distance p q))"
    using Cons.IH[OF d'(1)] Cons.prems(2) by simp
  have e: "max_rows (p # ps) qs d = max_rows ps qs d'" by (simp add: d'_def)
  have 1: "fge (max_rows ps qs d') d" using fge_trans[OF _ d'(3)] IH by blast
  have 2: "\<forall>q\<in>set qs. fge (max_rows ps qs d') (obj_distance p q)"
    using d'(4) fge_trans IH by blast
  show ?case unfolding e using IH d'(2) 1 2 by auto
qed

text \<open>The average loops add the distances in the order of the scan and count the pairs.\<close>

lemma avg_row_ok:
  assumes "n + int (length qs) \<le> INT_MAX"
  shows "avg_row p qs (d, n) =
         Inr (fold (\<lambda>q s. fadd s (obj_distance p q)) qs d, n + int (length qs))"
  using assms by (induction qs arbitrary: d n) auto

lemma avg_rows_ok:
  assumes "n + int (length ps) * int (length qs) \<le> INT_MAX"
  shows "avg_rows ps qs (d, n) =
         Inr (fold (\<lambda>p s. fold (\<lambda>q s. fadd s (obj_distance p q)) qs s) ps d,
              n + int (length ps) * int (length qs))"
  using assms
proof (induction ps arbitrary: d n)
  case Nil
  then show ?case by simp
next
  case (Cons p ps)
  have 1: "n + int (length qs) \<le> INT_MAX"
    using Cons.prems by (simp add: algebra_simps) (smt (verit) mult_nonneg_nonneg of_nat_0_le_iff)
  have 2: "n + int (length qs) + int (length ps) * int (length qs) \<le> INT_MAX"
    using Cons.prems by (simp add: algebra_simps)
  show ?case
    using avg_row_ok[OF 1, of p d] Cons.IH[OF 2] by (simp add: algebra_simps)
qed

lemma fold_fadd_fnonneg:
  assumes "fnonneg d" and "\<forall>q\<in>set qs. fnonneg (obj_distance p q)"
  shows "fnonneg (fold (\<lambda>q s. fadd s (obj_distance p q)) qs d)"
  using assms by (induction qs arbitrary: d) (simp_all add: fadd_fnonneg)

lemma fold_fold_fadd_fnonneg:
  assumes "fnonneg d" and "\<forall>p\<in>set ps. \<forall>q\<in>set qs. fnonneg (obj_distance p q)"
  shows "fnonneg (fold (\<lambda>p s. fold (\<lambda>q s. fadd s (obj_distance p q)) qs s) ps d)"
  using assms by (induction ps arbitrary: d) (simp_all add: fold_fadd_fnonneg)

lemma valid_cluster_distances:
  assumes "valid_cluster c1" and "valid_cluster c2"
  shows "\<forall>p\<in>set (obj c1). \<forall>q\<in>set (obj c2). fnonneg (obj_distance p q)"
  using assms by (auto simp: valid_cluster_def list_all_iff intro: obj_distance_fnonneg)

lemma cluster_distance_ok:
  assumes "valid_cluster c1" and "valid_cluster c2"
    and "csize c1 * csize c2 \<le> INT_MAX" and "pc = 0 \<or> pc = 1 \<or> pc = 2"
  shows "\<exists>d. cluster_distance pc c1 c2 = Inr d \<and> fnonneg d"
proof -
  have ne: "0 < csize c1" "0 < csize c2" "obj c1 \<noteq> []" "obj c2 \<noteq> []"
    using assms(1,2) by (auto simp: valid_cluster_def csize_def)
  have D: "\<forall>p\<in>set (obj c1). \<forall>q\<in>set (obj c2). fnonneg (obj_distance p q)"
    by (rule valid_cluster_distances[OF assms(1,2)])
  have "obj c1 ! 0 \<in> set (obj c1)" "obj c2 ! 0 \<in> set (obj c2)" using ne by simp_all
  then have d0: "fnonneg (obj_distance (obj c1 ! 0) (obj c2 ! 0))" using D by blast
  consider "pc = 0" | "pc = 1" | "pc = 2" using assms(4) by blast
  then show ?thesis
  proof cases
    case 1
    define m where "m = int (length (obj c1)) * int (length (obj c2))"
    have b: "0 + int (length (obj c1)) * int (length (obj c2)) \<le> INT_MAX"
      using assms(3) by (simp add: csize_def)
    have "0 < m" unfolding m_def using ne(1,2) by (intro mult_pos_pos) (simp_all add: csize_def)
    then have n1: "1 \<le> m" by simp
    have n2: "m \<le> INT_MAX" using b by (simp add: m_def)
    define s where
      "s = fold (\<lambda>p s. fold (\<lambda>q s. fadd s (obj_distance p q)) (obj c2) s) (obj c1) (Fin 0)"
    have "fnonneg s" unfolding s_def by (rule fold_fold_fadd_fnonneg[OF _ D]) simp
    then have r: "fnonneg (fdiv s (float_of_int m))" by (rule fdiv_fnonneg[OF _ n1 n2])
    have a: "avg_rows (obj c1) (obj c2) (Fin 0, 0) = Inr (s, m)"
      using avg_rows_ok[OF b, of "Fin 0"] by (simp add: s_def m_def)
    have "cluster_distance pc c1 c2 = Inr (fdiv s (float_of_int m))"
      unfolding cluster_distance_def using 1 ne(1,2) a by simp
    then show ?thesis using r by blast
  next
    case 2
    have "cluster_distance pc c1 c2 =
          Inr (min_rows (obj c1) (obj c2) (obj_distance (obj c1 ! 0) (obj c2 ! 0)))"
      unfolding cluster_distance_def using 2 ne(1,2) by simp
    then show ?thesis using min_rows_spec[OF d0 D] by blast
  next
    case 3
    have "cluster_distance pc c1 c2 =
          Inr (max_rows (obj c1) (obj c2) (obj_distance (obj c1 ! 0) (obj c2 ! 0)))"
      unfolding cluster_distance_def using 3 ne(1,2) by simp
    then show ?thesis using max_rows_spec[OF d0 D] by blast
  qed
qed

lemma obj_nonempty_distances:
  assumes "obj (a::cluster_t) \<noteq> []" and "obj (b::cluster_t) \<noteq> []"
    and "list_all finite_obj (obj a)" and "list_all finite_obj (obj b)"
  shows "\<forall>p\<in>set (obj a). \<forall>q\<in>set (obj b). fnonneg (obj_distance p q)"
    and "fnonneg (obj_distance (obj a ! 0) (obj b ! 0))"
    and "obj a ! 0 \<in> set (obj a)" and "obj b ! 0 \<in> set (obj b)"
    and "0 < csize a" and "0 < csize b"
proof -
  show D: "\<forall>p\<in>set (obj a). \<forall>q\<in>set (obj b). fnonneg (obj_distance p q)"
    using assms(3,4) by (auto simp: list_all_iff intro: obj_distance_fnonneg)
  show m: "obj a ! 0 \<in> set (obj a)" "obj b ! 0 \<in> set (obj b)" using assms(1,2) by simp_all
  show "fnonneg (obj_distance (obj a ! 0) (obj b ! 0))" using D m by blast
  show "0 < csize a" "0 < csize b" using assms(1,2) by (simp_all add: csize_def)
qed

lemma avg_rows_single: "avg_rows [p] qs acc = avg_row p qs acc"
  by (cases "avg_row p qs acc") simp_all

lemma avg_rows_single2: "avg_rows qs [p] acc = avg_row p qs acc"
proof (induction qs arbitrary: acc)
  case Nil
  then show ?case by simp
next
  case (Cons q qs)
  obtain d n where acc: "acc = (d, n)" by (cases acc)
  show ?case unfolding acc using Cons.IH by (simp add: obj_distance_sym[of q p])
qed

lemma min_rows_sym:
  assumes "obj (a::cluster_t) \<noteq> []" and "obj (b::cluster_t) \<noteq> []"
    and "list_all finite_obj (obj a)" and "list_all finite_obj (obj b)"
  shows "min_rows (obj a) (obj b) (obj_distance (obj a ! 0) (obj b ! 0)) =
         min_rows (obj b) (obj a) (obj_distance (obj b ! 0) (obj a ! 0))"
proof -
  let ?r = "min_rows (obj a) (obj b) (obj_distance (obj a ! 0) (obj b ! 0))"
  let ?s = "min_rows (obj b) (obj a) (obj_distance (obj b ! 0) (obj a ! 0))"
  note A = obj_nonempty_distances[OF assms]
  note B = obj_nonempty_distances[OF assms(2,1,4,3)]
  from min_rows_spec[OF A(2,1)] have
    r: "?r = obj_distance (obj a ! 0) (obj b ! 0) \<or>
        (\<exists>p\<in>set (obj a). \<exists>q\<in>set (obj b). ?r = obj_distance p q)"
       "\<forall>p\<in>set (obj a). \<forall>q\<in>set (obj b). fge (obj_distance p q) ?r"
    by blast+
  from min_rows_spec[OF B(2,1)] have
    s: "?s = obj_distance (obj b ! 0) (obj a ! 0) \<or>
        (\<exists>p\<in>set (obj b). \<exists>q\<in>set (obj a). ?s = obj_distance p q)"
       "\<forall>p\<in>set (obj b). \<forall>q\<in>set (obj a). fge (obj_distance p q) ?s"
    by blast+
  from r(1) A(3,4) obtain p q where pq: "p \<in> set (obj a)" "q \<in> set (obj b)" "?r = obj_distance p q"
    by blast
  from s(1) B(3,4) obtain p' q' where pq': "p' \<in> set (obj b)" "q' \<in> set (obj a)" "?s = obj_distance p' q'"
    by blast
  have "fge ?r ?s" using s(2) pq by (simp add: obj_distance_sym[of p q])
  moreover have "fge ?s ?r" using r(2) pq' by (simp add: obj_distance_sym[of p' q'])
  ultimately show ?thesis by (rule fge_antisym)
qed

lemma max_rows_sym:
  assumes "obj (a::cluster_t) \<noteq> []" and "obj (b::cluster_t) \<noteq> []"
    and "list_all finite_obj (obj a)" and "list_all finite_obj (obj b)"
  shows "max_rows (obj a) (obj b) (obj_distance (obj a ! 0) (obj b ! 0)) =
         max_rows (obj b) (obj a) (obj_distance (obj b ! 0) (obj a ! 0))"
proof -
  let ?r = "max_rows (obj a) (obj b) (obj_distance (obj a ! 0) (obj b ! 0))"
  let ?s = "max_rows (obj b) (obj a) (obj_distance (obj b ! 0) (obj a ! 0))"
  note A = obj_nonempty_distances[OF assms]
  note B = obj_nonempty_distances[OF assms(2,1,4,3)]
  from max_rows_spec[OF A(2,1)] have
    r: "?r = obj_distance (obj a ! 0) (obj b ! 0) \<or>
        (\<exists>p\<in>set (obj a). \<exists>q\<in>set (obj b). ?r = obj_distance p q)"
       "\<forall>p\<in>set (obj a). \<forall>q\<in>set (obj b). fge ?r (obj_distance p q)"
    by blast+
  from max_rows_spec[OF B(2,1)] have
    s: "?s = obj_distance (obj b ! 0) (obj a ! 0) \<or>
        (\<exists>p\<in>set (obj b). \<exists>q\<in>set (obj a). ?s = obj_distance p q)"
       "\<forall>p\<in>set (obj b). \<forall>q\<in>set (obj a). fge ?s (obj_distance p q)"
    by blast+
  from r(1) A(3,4) obtain p q where pq: "p \<in> set (obj a)" "q \<in> set (obj b)" "?r = obj_distance p q"
    by blast
  from s(1) B(3,4) obtain p' q' where pq': "p' \<in> set (obj b)" "q' \<in> set (obj a)" "?s = obj_distance p' q'"
    by blast
  have "fge ?s ?r" using s(2) pq by (simp add: obj_distance_sym[of p q])
  moreover have "fge ?r ?s" using r(2) pq' by (simp add: obj_distance_sym[of p' q'])
  ultimately show ?thesis by (intro fge_antisym)
qed

text \<open>
  C5 (as amended).  For two non-empty clusters with finite coordinates, the nearest
  neighbour distance and the furthest neighbour distance do not depend on the order of
  the two clusters, and both calls return normally.  The average distance has this
  property when one of the clusters has a single object: the distances are then added
  in the same order.
\<close>

theorem cluster_distance_symmetric:
  assumes "obj (a::cluster_t) \<noteq> []" and "obj (b::cluster_t) \<noteq> []"
    and "list_all finite_obj (obj a)" and "list_all finite_obj (obj b)"
  shows "(\<exists>d. cluster_distance 1 a b = Inr d \<and> cluster_distance 1 b a = Inr d) \<and>
         (\<exists>d. cluster_distance 2 a b = Inr d \<and> cluster_distance 2 b a = Inr d) \<and>
         (length (obj a) = 1 \<or> length (obj b) = 1 \<longrightarrow>
            cluster_distance 0 a b = cluster_distance 0 b a)"
proof -
  note A = obj_nonempty_distances[OF assms]
  have 1: "\<exists>d. cluster_distance 1 a b = Inr d \<and> cluster_distance 1 b a = Inr d"
    using A(5,6) min_rows_sym[OF assms] by (simp add: cluster_distance_def)
  have 2: "\<exists>d. cluster_distance 2 a b = Inr d \<and> cluster_distance 2 b a = Inr d"
    using A(5,6) max_rows_sym[OF assms] by (simp add: cluster_distance_def)
  have 3: "cluster_distance 0 a b = cluster_distance 0 b a"
    if "length (obj a) = 1 \<or> length (obj b) = 1"
  proof -
    have "avg_rows (obj a) (obj b) (Fin 0, 0) = avg_rows (obj b) (obj a) (Fin 0, 0)"
    proof (cases "length (obj a) = 1")
      case True
      then obtain p where p: "obj a = [p]" by (cases "obj a") simp_all
      show ?thesis by (simp only: p avg_rows_single avg_rows_single2)
    next
      case False
      then have "length (obj b) = 1" using that by simp
      then obtain p where p: "obj b = [p]" by (cases "obj b") simp_all
      show ?thesis by (simp only: p avg_rows_single avg_rows_single2)
    qed
    then show ?thesis using A(5,6) by (simp add: cluster_distance_def)
  qed
  show ?thesis using 1 2 3 by blast
qed

section \<open>Values of binary32 operations\<close>

text \<open>The roundings that occur in the examples below, computed from the definitions.\<close>

lemma binary32_float_of_int_0: "float_of_int 3 = Fin 3"
  by code_simp

lemma binary32_float_of_int_1: "float_of_int 4 = Fin 4"
  by code_simp

lemma binary32_sqrt_rnd_2: "sqrt_rnd 2 = 11863283 / 8388608"
  by code_simp

lemma binary32_sqrt_rnd_3: "sqrt_rnd 10 = 6631777 / 2097152"
  by code_simp

lemma binary32_to_float_4: "to_float (- 3) = Fin (- 3)"
  by code_simp

lemma binary32_to_float_5: "to_float (- 1) = Fin (- 1)"
  by code_simp

lemma binary32_to_float_6: "to_float 1 = Fin 1"
  by code_simp

lemma binary32_to_float_7: "to_float (11863283 / 8388608) = Fin (11863283 / 8388608)"
  by code_simp

lemma binary32_to_float_8: "to_float (15529239 / 8388608) = Fin (15529239 / 8388608)"
  by code_simp

lemma binary32_to_float_9: "to_float (1941155 / 1048576) = Fin (1941155 / 1048576)"
  by code_simp

lemma binary32_to_float_10: "to_float 2 = Fin 2"
  by code_simp

lemma binary32_to_float_11: "to_float (11863283 / 4194304) = Fin (11863283 / 4194304)"
  by code_simp

lemma binary32_to_float_12: "to_float 3 = Fin 3"
  by code_simp

lemma binary32_to_float_13: "to_float (6631777 / 2097152) = Fin (6631777 / 2097152)"
  by code_simp

lemma binary32_to_float_14: "to_float (4973833 / 1572864) = Fin (13263555 / 4194304)"
  by code_simp

lemma binary32_to_float_15: "to_float (38390391 / 8388608) = Fin (4798799 / 1048576)"
  by code_simp

lemma binary32_to_float_16: "to_float (25126837 / 4194304) = Fin (6281709 / 1048576)"
  by code_simp

lemma binary32_to_float_17: "to_float (50253675 / 8388608) = Fin (12563419 / 2097152)"
  by code_simp

lemma binary32_to_float_18: "to_float (6631777 / 1048576) = Fin (6631777 / 1048576)"
  by code_simp

lemma binary32_to_float_19: "to_float (62116955 / 8388608) = Fin (15529239 / 2097152)"
  by code_simp

lemma binary32_to_float_20: "to_float (62116959 / 8388608) = Fin (1941155 / 262144)"
  by code_simp

lemma binary32_to_float_21: "to_float 9 = Fin 9"
  by code_simp

lemma binary32_to_float_22: "to_float (19895331 / 2097152) = Fin (4973833 / 524288)"
  by code_simp

lemma binary32_to_float_23: "to_float 10 = Fin 10"
  by code_simp

lemmas binary32_values = binary32_float_of_int_0 binary32_float_of_int_1 binary32_sqrt_rnd_2 binary32_sqrt_rnd_3 binary32_to_float_4 binary32_to_float_5 binary32_to_float_6 binary32_to_float_7 binary32_to_float_8 binary32_to_float_9 binary32_to_float_10 binary32_to_float_11 binary32_to_float_12 binary32_to_float_13 binary32_to_float_14 binary32_to_float_15 binary32_to_float_16 binary32_to_float_17 binary32_to_float_18 binary32_to_float_19 binary32_to_float_20 binary32_to_float_21 binary32_to_float_22 binary32_to_float_23

theorem cluster_distance_symmetric_witness:
  "obj \<lparr>capacity = 10, obj = [\<lparr>obj_id = 1, obj_x = Fin 0, obj_y = Fin 0\<rparr>,
                              \<lparr>obj_id = 2, obj_x = Fin 0, obj_y = Fin 2\<rparr>]\<rparr> \<noteq> [] \<and>
   obj \<lparr>capacity = 10, obj = [\<lparr>obj_id = 3, obj_x = Fin 1, obj_y = Fin 1\<rparr>,
                              \<lparr>obj_id = 4, obj_x = Fin 1, obj_y = Fin 3\<rparr>]\<rparr> \<noteq> [] \<and>
   list_all finite_obj (obj \<lparr>capacity = 10, obj = [\<lparr>obj_id = 1, obj_x = Fin 0, obj_y = Fin 0\<rparr>,
                              \<lparr>obj_id = 2, obj_x = Fin 0, obj_y = Fin 2\<rparr>]\<rparr>) \<and>
   list_all finite_obj (obj \<lparr>capacity = 10, obj = [\<lparr>obj_id = 3, obj_x = Fin 1, obj_y = Fin 1\<rparr>,
                              \<lparr>obj_id = 4, obj_x = Fin 1, obj_y = Fin 3\<rparr>]\<rparr>) \<and>
   cluster_distance 1 \<lparr>capacity = 10, obj = [\<lparr>obj_id = 1, obj_x = Fin 0, obj_y = Fin 0\<rparr>,
                              \<lparr>obj_id = 2, obj_x = Fin 0, obj_y = Fin 2\<rparr>]\<rparr>
     \<lparr>capacity = 10, obj = [\<lparr>obj_id = 3, obj_x = Fin 1, obj_y = Fin 1\<rparr>,
                              \<lparr>obj_id = 4, obj_x = Fin 1, obj_y = Fin 3\<rparr>]\<rparr> = Inr (Fin (11863283 / 8388608)) \<and>
   cluster_distance 1 \<lparr>capacity = 10, obj = [\<lparr>obj_id = 3, obj_x = Fin 1, obj_y = Fin 1\<rparr>,
                              \<lparr>obj_id = 4, obj_x = Fin 1, obj_y = Fin 3\<rparr>]\<rparr>
     \<lparr>capacity = 10, obj = [\<lparr>obj_id = 1, obj_x = Fin 0, obj_y = Fin 0\<rparr>,
                              \<lparr>obj_id = 2, obj_x = Fin 0, obj_y = Fin 2\<rparr>]\<rparr> = Inr (Fin (11863283 / 8388608))"
  using cluster_distance_symmetric [of "\<lparr>capacity = 10, obj = [\<lparr>obj_id = 1, obj_x = Fin 0, obj_y = Fin 0\<rparr>,
                              \<lparr>obj_id = 2, obj_x = Fin 0, obj_y = Fin 2\<rparr>]\<rparr>"
      "\<lparr>capacity = 10, obj = [\<lparr>obj_id = 3, obj_x = Fin 1, obj_y = Fin 1\<rparr>,
                              \<lparr>obj_id = 4, obj_x = Fin 1, obj_y = Fin 3\<rparr>]\<rparr>"]
  by (simp add: finite_obj_def cluster_distance_def csize_def obj_distance_def fsub_def
        binary32_values)

text \<open>
  The claim as it was stated fails for the average method: from \<open>{(0,0), (0,2)}\<close> to
  \<open>{(1,1), (1,3)}\<close> the four distances are added in the order
  \<open>\<surd>2, \<surd>10, \<surd>2, \<surd>2\<close>, in the other direction in the order \<open>\<surd>2, \<surd>2, \<surd>10, \<surd>2\<close>, and the
  two rounded sums differ in the last bit.
\<close>

theorem average_distance_order_counterexample:
  "cluster_distance 0 \<lparr>capacity = 10, obj = [\<lparr>obj_id = 1, obj_x = Fin 0, obj_y = Fin 0\<rparr>,
                              \<lparr>obj_id = 2, obj_x = Fin 0, obj_y = Fin 2\<rparr>]\<rparr>
     \<lparr>capacity = 10, obj = [\<lparr>obj_id = 3, obj_x = Fin 1, obj_y = Fin 1\<rparr>,
                              \<lparr>obj_id = 4, obj_x = Fin 1, obj_y = Fin 3\<rparr>]\<rparr> = Inr (Fin (1941155 / 1048576)) \<and>
   cluster_distance 0 \<lparr>capacity = 10, obj = [\<lparr>obj_id = 3, obj_x = Fin 1, obj_y = Fin 1\<rparr>,
                              \<lparr>obj_id = 4, obj_x = Fin 1, obj_y = Fin 3\<rparr>]\<rparr>
     \<lparr>capacity = 10, obj = [\<lparr>obj_id = 1, obj_x = Fin 0, obj_y = Fin 0\<rparr>,
                              \<lparr>obj_id = 2, obj_x = Fin 0, obj_y = Fin 2\<rparr>]\<rparr> = Inr (Fin (15529239 / 8388608)) \<and>
   cluster_distance 0 \<lparr>capacity = 10, obj = [\<lparr>obj_id = 1, obj_x = Fin 0, obj_y = Fin 0\<rparr>,
                              \<lparr>obj_id = 2, obj_x = Fin 0, obj_y = Fin 2\<rparr>]\<rparr>
     \<lparr>capacity = 10, obj = [\<lparr>obj_id = 3, obj_x = Fin 1, obj_y = Fin 1\<rparr>,
                              \<lparr>obj_id = 4, obj_x = Fin 1, obj_y = Fin 3\<rparr>]\<rparr> \<noteq>
   cluster_distance 0 \<lparr>capacity = 10, obj = [\<lparr>obj_id = 3, obj_x = Fin 1, obj_y = Fin 1\<rparr>,
                              \<lparr>obj_id = 4, obj_x = Fin 1, obj_y = Fin 3\<rparr>]\<rparr>
     \<lparr>capacity = 10, obj = [\<lparr>obj_id = 1, obj_x = Fin 0, obj_y = Fin 0\<rparr>,
                              \<lparr>obj_id = 2, obj_x = Fin 0, obj_y = Fin 2\<rparr>]\<rparr>"
  by (simp add: cluster_distance_def csize_def INT_MAX_def obj_distance_def fsub_def
        binary32_values)

section \<open>The nearest pair\<close>

lemma csize_le_points:
  assumes "k < n" and "n \<le> length carr"
  shows "csize (carr ! k) \<le> int (length (points carr (int n)))"
proof -
  have "carr ! k \<in> set (take n carr)" using assms by (metis in_set_conv_nth length_take min.absorb2 nth_take)
  then have "length (obj (carr ! k)) \<in> set (map length (map obj (take n carr)))" by simp
  then have "length (obj (carr ! k)) \<le> sum_list (map length (map obj (take n carr)))"
    by (intro member_le_sum_list) simp_all
  then show ?thesis by (simp add: points_def length_concat csize_def)
qed

lemma valid_collection_distance:
  assumes "valid_collection carr (int n)" and "a < n" and "b < n" and "pc = 0 \<or> pc = 1 \<or> pc = 2"
  shows "\<exists>d. cluster_distance pc (carr ! a) (carr ! b) = Inr d \<and> fnonneg d"
proof -
  have n: "n \<le> length carr" using assms(1) by (simp add: valid_collection_def)
  have v: "list_all valid_cluster (take n carr)" using assms(1) by (simp add: valid_collection_def)
  have m: "int (length (points carr (int n))) * int (length (points carr (int n))) \<le> INT_MAX"
    using assms(1) by (simp add: valid_collection_def)
  have va: "valid_cluster (carr ! a)" "valid_cluster (carr ! b)"
    using v assms(2,3) n by (simp_all add: list_all_length)
  have "csize (carr ! a) * csize (carr ! b) \<le>
        int (length (points carr (int n))) * int (length (points carr (int n)))"
    using csize_le_points[OF assms(2) n] csize_le_points[OF assms(3) n]
    by (intro mult_mono) (simp_all add: csize_def)
  then have "csize (carr ! a) * csize (carr ! b) \<le> INT_MAX" using m by simp
  then show ?thesis by (rule cluster_distance_ok[OF va _ assms(4)])
qed

lemma find_neighbours_ok:
  assumes vc: "valid_collection carr (int n)" and n2: "2 \<le> n"
    and pc: "pc = 0 \<or> pc = 1 \<or> pc = 2"
  shows "\<exists>i j. find_neighbours pc carr (int n) c1 c2 = Inr (Some (int i), Some (int j)) \<and>
           i < j \<and> j < n \<and>
           (\<forall>a b. a < b \<and> b < n \<longrightarrow>
              (\<exists>d d'. cluster_distance pc (carr ! i) (carr ! j) = Inr d \<and>
                      cluster_distance pc (carr ! a) (carr ! b) = Inr d' \<and> fge d' d \<and>
                      (d' = d \<longrightarrow> a < i \<or> (a = i \<and> b \<le> j))))"
proof -
  define D where "D a b = (case cluster_distance pc (carr ! a) (carr ! b) of
                             Inl e \<Rightarrow> NaN | Inr d \<Rightarrow> d)" for a b
  have len: "n \<le> length carr" using vc by (simp add: valid_collection_def)
  have D: "cluster_distance pc (carr ! a) (carr ! b) = Inr (D a b) \<and> fnonneg (D a b)"
    if "a < n" "b < n" for a b
    using valid_collection_distance[OF vc that pc] by (auto simp: D_def)
  define sc where "sc i j a b \<longleftrightarrow> a < b \<and> b < n \<and> (a < i \<or> (a = i \<and> b < j))"
    for i j a b :: nat
  define inv where "inv i j st \<longleftrightarrow>
      (case st of (d, x1, x2) \<Rightarrow>
         fnonneg d \<and> (\<forall>a b. sc i j a b \<longrightarrow> fge (D a b) d) \<and>
         (if sc i j 0 1
          then \<exists>a b. sc i j a b \<and> x1 = Some (int a) \<and> x2 = Some (int b) \<and> d = D a b \<and>
                  (\<forall>a' b'. sc i j a' b' \<and> D a' b' = d \<longrightarrow> a' < a \<or> (a' = a \<and> b' \<le> b))
          else d = D 0 1))" for i j st
  have step: "inv i (Suc j) (if fge d (D i j) then (D i j, Some (int i), Some (int j)) else (d, x1, x2))"
    if I: "inv i j (d, x1, x2)" and ij: "i < j" "j < n" for i j d x1 x2
  proof -
    have nd: "fnonneg d" and lb: "\<forall>a b. sc i j a b \<longrightarrow> fge (D a b) d"
      using I by (simp_all add: inv_def)
    have nij: "fnonneg (D i j)" using D[of i j] ij by simp
    have sc': "sc i (Suc j) a b \<longleftrightarrow> sc i j a b \<or> (a = i \<and> b = j)" for a b
      using ij by (auto simp: sc_def)
    have before: "a < i \<or> (a = i \<and> b \<le> j)" if "sc i j a b" for a b
      using that by (auto simp: sc_def)
    show ?thesis
    proof (cases "fge d (D i j)")
      case True
      have "fge (D a b) (D i j)" if "sc i j a b" for a b
        using lb that True fge_trans by blast
      moreover have "sc i (Suc j) i j" using ij by (simp add: sc_def)
      moreover have "sc i (Suc j) 0 1" using ij by (auto simp: sc_def)
      ultimately show ?thesis
        using True nij before by (auto simp: inv_def sc' fge_refl)
    next
      case False
      then have gt: "fge (D i j) d" using fge_total[OF nd nij] by blast
      have ne: "D i j \<noteq> d" using False nd fge_refl by metis
      have s01: "sc i j 0 1"
      proof (rule ccontr)
        assume n01: "\<not> sc i j 0 1"
        then have "d = D 0 1" using I by (simp add: inv_def)
        moreover have "i = 0 \<and> j = 1" using n01 ij n2 by (auto simp: sc_def)
        ultimately show False using False nd fge_refl by metis
      qed
      then obtain a b where ab: "sc i j a b" "x1 = Some (int a)" "x2 = Some (int b)" "d = D a b"
        "\<forall>a' b'. sc i j a' b' \<and> D a' b' = d \<longrightarrow> a' < a \<or> (a' = a \<and> b' \<le> b)"
        using I unfolding inv_def by auto
      have 1: "\<forall>a b. sc i (Suc j) a b \<longrightarrow> fge (D a b) d" using lb gt by (auto simp: sc')
      have 2: "\<exists>a b. sc i (Suc j) a b \<and> x1 = Some (int a) \<and> x2 = Some (int b) \<and> d = D a b \<and>
                  (\<forall>a' b'. sc i (Suc j) a' b' \<and> D a' b' = d \<longrightarrow> a' < a \<or> (a' = a \<and> b' \<le> b))"
        using ab ne by (intro exI[of _ a] exI[of _ b]) (auto simp: sc')
      have 3: "sc i (Suc j) 0 1" using s01 by (simp add: sc')
      show ?thesis using False nd 1 2 3 by (simp add: inv_def)
    qed
  qed
  have inner: "\<exists>st'. find_inner pc carr (int n) (int i) (int j) st = Inr st' \<and> inv i n st'"
    if "inv i j st" "i < j" "j \<le> n" for i j st
    using that
  proof (induction "n - j" arbitrary: j st)
    case 0
    then have j: "j = n" by simp
    obtain d x1 x2 where st: "st = (d, x1, x2)" by (cases st)
    have "find_inner pc carr (int n) (int i) (int n) (d, x1, x2) = Inr (d, x1, x2)"
      by (subst find_inner.simps) simp
    then show ?case using "0.prems"(1) j st by auto
  next
    case (Suc k)
    obtain d x1 x2 where st: "st = (d, x1, x2)" by (cases st)
    have jn: "j < n" using Suc.hyps(2) by simp
    then have ia: "in_array carr (int i)" "in_array carr (int j)"
      using Suc.prems(2) len by (simp_all add: in_array_def)
    have cd: "cluster_distance pc (carr ! i) (carr ! j) = Inr (D i j)"
      using D[of i j] jn Suc.prems(2) by simp
    define st1 where "st1 = (if fge d (D i j) then (D i j, Some (int i), Some (int j)) else (d, x1, x2))"
    have "inv i (Suc j) st1" unfolding st1_def
      using step[OF _ Suc.prems(2) jn] Suc.prems(1) st by simp
    moreover have "k = n - Suc j" using Suc.hyps(2) by simp
    ultimately obtain st' where
      r: "find_inner pc carr (int n) (int i) (int (Suc j)) st1 = Inr st'" "inv i n st'"
      using Suc.hyps(1)[of "Suc j" st1] Suc.prems(2) jn by auto
    have "find_inner pc carr (int n) (int i) (int j) st = Inr st'"
      unfolding st using jn ia cd r(1)
      by (subst find_inner.simps) (simp add: st1_def add.commute)
    then show ?case using r(2) by blast
  qed
  have next_row: "inv (Suc i) (Suc (Suc i)) st" if "inv i n st" for i st
  proof -
    have e: "sc (Suc i) (Suc (Suc i)) = sc i n"
      by (intro ext) (auto simp: sc_def)
    show ?thesis using that unfolding inv_def e .
  qed
  have outer: "\<exists>st'. find_outer pc carr (int n) (int i) st = Inr st' \<and> inv n (Suc n) st'"
    if "inv i (Suc i) st" "i \<le> n" for i st
    using that
  proof (induction "n - i" arbitrary: i st)
    case 0
    then have "i = n" by simp
    then show ?case using 0 by (subst find_outer.simps) simp
  next
    case (Suc k)
    have i: "i < n" using Suc.hyps(2) by simp
    from inner[OF Suc.prems(1)] i obtain st1 where
      s1: "find_inner pc carr (int n) (int i) (int (Suc i)) st = Inr st1" "inv i n st1"
      by auto
    have "k = n - Suc i" using Suc.hyps(2) by simp
    from Suc.hyps(1)[OF this next_row[OF s1(2)]] i obtain st' where
      r: "find_outer pc carr (int n) (int (Suc i)) st1 = Inr st'" "inv n (Suc n) st'"
      by auto
    have "find_outer pc carr (int n) (int i) st = Inr st'"
      using i s1(1) r(1) by (subst find_outer.simps) (simp add: add.commute)
    then show ?case using r(2) by blast
  qed
  have d01: "cluster_distance pc (carr ! 0) (carr ! 1) = Inr (D 0 1)" "fnonneg (D 0 1)"
    using D[of 0 1] n2 by simp_all
  have "inv 0 (Suc 0) (D 0 1, c1, c2)"
    using d01(2) by (auto simp: inv_def sc_def)
  from outer[OF this] obtain st' where
    r: "find_outer pc carr (int n) (int 0) (D 0 1, c1, c2) = Inr st'" "inv n (Suc n) st'"
    by auto
  obtain d x1 x2 where st': "st' = (d, x1, x2)" by (cases st')
  have all: "sc n (Suc n) a b \<longleftrightarrow> a < b \<and> b < n" for a b by (auto simp: sc_def)
  have "sc n (Suc n) 0 1" using n2 by (simp add: all)
  then obtain i j where ij: "i < j" "j < n" "x1 = Some (int i)" "x2 = Some (int j)" "d = D i j"
    and last: "\<forall>a' b'. a' < b' \<and> b' < n \<and> D a' b' = d \<longrightarrow> a' < i \<or> (a' = i \<and> b' \<le> j)"
    and lb: "\<forall>a b. a < b \<and> b < n \<longrightarrow> fge (D a b) d"
    using r(2) unfolding st' inv_def all by auto
  have ia: "in_array carr 0" "in_array carr 1" using n2 len by (auto simp: in_array_def)
  have fn: "find_neighbours pc carr (int n) c1 c2 = Inr (Some (int i), Some (int j))"
    using n2 ia d01(1) r(1) ij(3,4) by (simp add: find_neighbours_def st')
  have "\<exists>d d'. cluster_distance pc (carr ! i) (carr ! j) = Inr d \<and>
                cluster_distance pc (carr ! a) (carr ! b) = Inr d' \<and> fge d' d \<and>
                (d' = d \<longrightarrow> a < i \<or> (a = i \<and> b \<le> j))"
    if "a < b \<and> b < n" for a b
    using D[of i j] D[of a b] ij(1,2,5) that lb last by auto
  then show ?thesis using fn ij(1,2) by blast
qed

text \<open>
  C3.  On a collection of at least two non-empty clusters with finite coordinates, and
  for each of the three methods, \<^verbatim>\<open>find_neighbours\<close> returns normally and assigns both
  indices, with \<open>0 \<le> i < j < narr\<close>; the distance of the pair \<open>(i, j)\<close> is less than or
  equal to the distance of every pair \<open>a < b < narr\<close>, and a pair with exactly the same
  distance is \<open>(i, j)\<close> itself or comes before it in the order of the scan (\<open>a\<close>
  ascending, then \<open>b\<close> ascending): among the pairs at the minimum, the last one scanned
  is returned.  The values of \<open>c1\<close> and \<open>c2\<close> before the call do not matter.
\<close>

theorem find_neighbours_nearest_pair:
  assumes "valid_collection carr narr" and "2 \<le> narr" and "pc = 0 \<or> pc = 1 \<or> pc = 2"
  shows "\<exists>i j d. find_neighbours pc carr narr c1 c2 = Inr (Some i, Some j) \<and>
           0 \<le> i \<and> i < j \<and> j < narr \<and>
           cluster_distance pc (carr ! nat i) (carr ! nat j) = Inr d \<and>
           (\<forall>a b. 0 \<le> a \<and> a < b \<and> b < narr \<longrightarrow>
              (\<exists>d'. cluster_distance pc (carr ! nat a) (carr ! nat b) = Inr d' \<and> fge d' d \<and>
                    (d' = d \<longrightarrow> a < i \<or> (a = i \<and> b \<le> j))))"
proof -
  define n where "n = nat narr"
  have n: "narr = int n" "2 \<le> n" using assms(2) by (simp_all add: n_def)
  have vc: "valid_collection carr (int n)" using assms(1) n(1) by simp
  from find_neighbours_ok[OF vc n(2) assms(3), of c1 c2] obtain i j where
    fn: "find_neighbours pc carr (int n) c1 c2 = Inr (Some (int i), Some (int j))"
    and ij: "i < j" "j < n"
    and mn: "\<forall>a b. a < b \<and> b < n \<longrightarrow>
              (\<exists>d d'. cluster_distance pc (carr ! i) (carr ! j) = Inr d \<and>
                      cluster_distance pc (carr ! a) (carr ! b) = Inr d' \<and> fge d' d \<and>
                      (d' = d \<longrightarrow> a < i \<or> (a = i \<and> b \<le> j)))"
    by blast
  from mn[rule_format, of i j] ij obtain d where
    d: "cluster_distance pc (carr ! i) (carr ! j) = Inr d" by blast
  have rest: "\<exists>d'. cluster_distance pc (carr ! nat a) (carr ! nat b) = Inr d' \<and> fge d' d \<and>
             (d' = d \<longrightarrow> a < int i \<or> (a = int i \<and> b \<le> int j))"
    if ab: "0 \<le> a \<and> a < b \<and> b < narr" for a b
  proof -
    have ab': "nat a < nat b \<and> nat b < n" using ab n(1) by linarith
    from mn[rule_format, OF ab'] obtain d0 d' where
      e: "cluster_distance pc (carr ! i) (carr ! j) = Inr d0"
         "cluster_distance pc (carr ! nat a) (carr ! nat b) = Inr d'" "fge d' d0"
         "d' = d0 \<longrightarrow> nat a < i \<or> (nat a = i \<and> nat b \<le> j)"
      by blast
    have d0: "d0 = d" using e(1) d by simp
    have "d' = d \<longrightarrow> a < int i \<or> (a = int i \<and> b \<le> int j)"
      using e(4) ab unfolding d0 by linarith
    then show ?thesis using e(2,3) d0 by blast
  qed
  have 1: "find_neighbours pc carr narr c1 c2 = Inr (Some (int i), Some (int j))"
    using fn unfolding n(1) .
  have 2: "0 \<le> int i" "int i < int j" "int j < narr" using ij n(1) by simp_all
  have 3: "cluster_distance pc (carr ! nat (int i)) (carr ! nat (int j)) = Inr d"
    using d by simp
  show ?thesis
    apply (rule exI[of _ "int i"])
    apply (rule exI[of _ "int j"])
    apply (rule exI[of _ d])
    using 1 2 3 rest by blast
qed

theorem find_neighbours_nearest_pair_witness:
  "valid_collection
     [\<lparr>capacity = 1, obj = [\<lparr>obj_id = 1, obj_x = Fin 1, obj_y = Fin 1\<rparr>]\<rparr>,
      \<lparr>capacity = 1, obj = [\<lparr>obj_id = 2, obj_x = Fin 2, obj_y = Fin 2\<rparr>]\<rparr>,
      \<lparr>capacity = 1, obj = [\<lparr>obj_id = 3, obj_x = Fin 3, obj_y = Fin 3\<rparr>]\<rparr>] 3 \<and>
   (2::int) \<le> 3 \<and> ((1::int) = 0 \<or> (1::int) = 1 \<or> (1::int) = 2) \<and>
   (\<exists>i j. find_neighbours 1
       [\<lparr>capacity = 1, obj = [\<lparr>obj_id = 1, obj_x = Fin 1, obj_y = Fin 1\<rparr>]\<rparr>,
        \<lparr>capacity = 1, obj = [\<lparr>obj_id = 2, obj_x = Fin 2, obj_y = Fin 2\<rparr>]\<rparr>,
        \<lparr>capacity = 1, obj = [\<lparr>obj_id = 3, obj_x = Fin 3, obj_y = Fin 3\<rparr>]\<rparr>] 3 None None =
         Inr (Some i, Some j) \<and> 0 \<le> i \<and> i < j \<and> j < 3)"
proof -
  let ?C = "[\<lparr>capacity = 1, obj = [\<lparr>obj_id = 1, obj_x = Fin 1, obj_y = Fin 1\<rparr>]\<rparr>,
             \<lparr>capacity = 1, obj = [\<lparr>obj_id = 2, obj_x = Fin 2, obj_y = Fin 2\<rparr>]\<rparr>,
             \<lparr>capacity = 1, obj = [\<lparr>obj_id = 3, obj_x = Fin 3, obj_y = Fin 3\<rparr>]\<rparr>]"
  have h1: "valid_collection ?C 3"
    by (simp add: valid_collection_def valid_cluster_def finite_obj_def csize_def points_def
          INT_MAX_def)
  have h2: "(2::int) \<le> 3" by simp
  have h3: "(1::int) = 0 \<or> (1::int) = 1 \<or> (1::int) = 2" by simp
  from find_neighbours_nearest_pair[OF h1 h2 h3, of None None] obtain i j where
    "find_neighbours 1 ?C 3 None None = Inr (Some i, Some j)" "0 \<le> i" "i < j" "j < 3"
    by blast
  then have "\<exists>i j. find_neighbours 1 ?C 3 None None = Inr (Some i, Some j) \<and>
                   0 \<le> i \<and> i < j \<and> j < 3"
    by blast
  then show ?thesis using h1 by simp
qed

section \<open>The clustering loop\<close>

lemma points_update:
  assumes "i < n" and "n \<le> length carr"
  shows "mset (points (carr[i := c]) (int n)) + mset (obj (carr ! i)) =
         mset (points carr (int n)) + mset (obj c)"
proof -
  have a: "take n carr = take i carr @ carr ! i # take (n - 1 - i) (drop (Suc i) carr)"
    by (rule take_split_at[OF assms])
  have "take n (carr[i := c]) =
        take i (carr[i := c]) @ (carr[i := c]) ! i # take (n - 1 - i) (drop (Suc i) (carr[i := c]))"
    using assms by (intro take_split_at) simp_all
  then have b: "take n (carr[i := c]) = take i carr @ c # take (n - 1 - i) (drop (Suc i) carr)"
    using assms by simp
  show ?thesis unfolding points_def by (simp add: a b)
qed

lemma valid_cluster_sorted:
  assumes "obj c \<noteq> []" and "list_all finite_obj (obj c)"
    and "obj c' = sort_key obj_id (obj c)" and "csize c' \<le> capacity c'"
  shows "valid_cluster c'"
proof -
  have "set (obj c') = set (obj c)" using assms(3) by simp
  then have "list_all finite_obj (obj c')" using assms(2) by (simp add: list_all_iff)
  moreover have "obj c' \<noteq> []" using assms(1,3) by (metis length_0_conv length_sort)
  ultimately show ?thesis using assms(4) by (simp add: valid_cluster_def)
qed

lemma square_le_INT_MAX:
  assumes "0 \<le> t" and "t * t \<le> INT_MAX"
  shows "2 * t \<le> INT_MAX - CLUSTER_CHUNK"
proof (rule ccontr)
  assume "\<not> 2 * t \<le> INT_MAX - CLUSTER_CHUNK"
  then have "65536 \<le> t" by (simp add: INT_MAX_def CLUSTER_CHUNK_def)
  then have "65536 * 65536 \<le> t * t" by (intro mult_mono) simp_all
  then show False using assms(2) by (simp add: INT_MAX_def)
qed

lemma valid_collection_sizes:
  assumes "valid_collection carr (int n)" and "a < n" and "b < n"
  shows "csize (carr ! a) + csize (carr ! b) \<le> INT_MAX - CLUSTER_CHUNK"
    and "csize (carr ! a) \<le> INT_MAX - CLUSTER_CHUNK"
proof -
  have n: "n \<le> length carr" using assms(1) by (simp add: valid_collection_def)
  have m: "int (length (points carr (int n))) * int (length (points carr (int n))) \<le> INT_MAX"
    using assms(1) by (simp add: valid_collection_def)
  have t: "2 * int (length (points carr (int n))) \<le> INT_MAX - CLUSTER_CHUNK"
    using m by (intro square_le_INT_MAX) simp_all
  show "csize (carr ! a) + csize (carr ! b) \<le> INT_MAX - CLUSTER_CHUNK"
    using csize_le_points[OF assms(2) n] csize_le_points[OF assms(3) n] t by simp
  have "0 \<le> csize (carr ! b)" by (simp add: csize_def)
  then show "csize (carr ! a) \<le> INT_MAX - CLUSTER_CHUNK"
    using csize_le_points[OF assms(2) n] t by simp
qed

lemma driver_iteration_ok:
  assumes al: "\<forall>k. al k" and vc: "valid_collection carr (int n)" and n2: "2 \<le> n"
    and pc: "pc = 0 \<or> pc = 1 \<or> pc = 2"
  shows "\<exists>carr' x1 x2. driver_iteration pc al carr (int n) c1 c2 = Inr (carr', x1, x2) \<and>
           valid_collection carr' (int n - 1) \<and> length carr' = length carr \<and>
           mset (points carr' (int n - 1)) = mset (points carr (int n))"
proof -
  have len: "n \<le> length carr" using vc by (simp add: valid_collection_def)
  have v: "valid_cluster (carr ! k)" if "k < n" for k
    using vc that len by (simp add: valid_collection_def list_all_length)
  from find_neighbours_ok[OF vc n2 pc, of c1 c2] obtain i j where
    fn: "find_neighbours pc carr (int n) c1 c2 = Inr (Some (int i), Some (int j))"
    and ij: "i < j" "j < n"
    by blast
  have ia: "in_array carr (int i)" "in_array carr (int j)" "int i \<noteq> int j"
    using ij len by (simp_all add: in_array_def)
  have vi: "valid_cluster (carr ! i)" and vj: "valid_cluster (carr ! j)"
    using v ij by simp_all
  have ci: "0 \<le> capacity (carr ! i)" "csize (carr ! i) \<le> capacity (carr ! i)"
    using vi by (simp_all add: valid_cluster_def csize_def)
  have ilt: "i < n" using ij by simp
  have sij: "csize (carr ! i) + csize (carr ! j) \<le> INT_MAX - CLUSTER_CHUNK"
    by (rule valid_collection_sizes(1)[OF vc ilt ij(2)])
  from merge_clusters_ok[OF al ci(1) sij] ci(2) obtain cp where
    cp: "csize (carr ! i) + csize (carr ! j) \<le> cp"
    and m: "merge_clusters al (carr ! i) (carr ! j) =
            Inr ((carr ! i)\<lparr>capacity := cp,
                   obj := sort_key obj_id (obj (carr ! i) @ obj (carr ! j))\<rparr>)"
    by blast
  define c where "c = (carr ! i)\<lparr>capacity := cp,
                   obj := sort_key obj_id (obj (carr ! i) @ obj (carr ! j))\<rparr>"
  have lc: "length (obj c) = length (obj (carr ! i)) + length (obj (carr ! j))"
    by (simp add: c_def)
  have "obj (carr ! i) \<noteq> []" using vi by (simp add: valid_cluster_def)
  then have "0 < length (obj c)" unfolding lc by simp
  then have "obj c \<noteq> []" by simp
  moreover have "csize c \<le> capacity c"
    using cp unfolding csize_def lc by (simp add: c_def)
  moreover have "list_all finite_obj (obj c)"
    using vi vj by (auto simp: c_def valid_cluster_def list_all_iff)
  ultimately have vc': "valid_cluster c" by (simp add: valid_cluster_def)
  have oc: "mset (obj c) = mset (obj (carr ! i)) + mset (obj (carr ! j))"
    by (simp add: c_def)
  define carr1 where "carr1 = carr[i := c]"
  have len1: "n \<le> length carr1" "length carr1 = length carr" using len by (simp_all add: carr1_def)
  have sz1: "\<forall>k. j < k \<and> k < n \<longrightarrow> csize (carr1 ! k) \<le> INT_MAX - CLUSTER_CHUNK"
  proof (intro allI impI)
    fix k assume k: "j < k \<and> k < n"
    then have "carr1 ! k = carr ! k" using ij by (simp add: carr1_def)
    moreover have "csize (carr ! k) \<le> INT_MAX - CLUSTER_CHUNK"
      using k by (intro valid_collection_sizes(2)[OF vc, of k k]) simp_all
    ultimately show "csize (carr1 ! k) \<le> INT_MAX - CLUSTER_CHUNK" by simp
  qed
  from remove_cluster_ok[OF al ij(2) len1(1) sz1] obtain carr' where
    r: "remove_cluster al carr1 (int n) (int j) = Inr (carr', int n - 1)"
    and len': "length carr' = length carr1"
    and nth: "\<forall>k<length carr1.
         (k < j \<or> n \<le> k \<longrightarrow> carr' ! k = carr1 ! k) \<and>
         (j \<le> k \<and> Suc k < n \<longrightarrow>
            obj (carr' ! k) = sort_key obj_id (obj (carr1 ! Suc k)) \<and>
            csize (carr' ! k) \<le> capacity (carr' ! k)) \<and>
         (j \<le> k \<and> Suc k = n \<longrightarrow> carr' ! k = clear_cluster (carr1 ! k))"
    and ms: "mset (points carr' (int n - 1)) + mset (obj (carr1 ! j)) = mset (points carr1 (int n))"
    by blast
  have di: "driver_iteration pc al carr (int n) c1 c2 = Inr (carr', Some (int i), Some (int j))"
    using fn ia m r by (simp add: driver_iteration_def c_def carr1_def)
  have j1: "carr1 ! j = carr ! j" using ij by (simp add: carr1_def)
  have "mset (points carr1 (int n)) + mset (obj (carr ! i)) = mset (points carr (int n)) + mset (obj c)"
    unfolding carr1_def using ij len by (intro points_update) simp_all
  then have "mset (points carr1 (int n)) = mset (points carr (int n)) + mset (obj (carr ! j))"
    unfolding oc by simp
  then have pts: "mset (points carr' (int n - 1)) = mset (points carr (int n))"
    using ms j1 by simp
  then have "length (points carr' (int n - 1)) = length (points carr (int n))"
    by (rule mset_eq_length)
  then have bound: "int (length (points carr' (int n - 1))) * int (length (points carr' (int n - 1)))
      \<le> INT_MAX"
    using vc by (simp add: valid_collection_def)
  have vk: "valid_cluster (carr' ! k)" if k: "k < n - 1" for k
  proof (cases "k < j")
    case True
    then have "carr' ! k = carr1 ! k" using nth k len1 by simp
    then show ?thesis using v[of k] vc' k len by (cases "k = i") (simp_all add: carr1_def)
  next
    case False
    then have e: "obj (carr' ! k) = sort_key obj_id (obj (carr1 ! Suc k))"
      "csize (carr' ! k) \<le> capacity (carr' ! k)"
      using nth k len1 by simp_all
    have "carr1 ! Suc k = carr ! Suc k" using False ij by (simp add: carr1_def)
    moreover have "valid_cluster (carr ! Suc k)" using v[of "Suc k"] k by simp
    ultimately show ?thesis
      using e by (intro valid_cluster_sorted[of "carr1 ! Suc k"]) (simp_all add: valid_cluster_def)
  qed
  have "list_all valid_cluster (take (n - 1) carr')"
    using vk len' len1 by (simp add: list_all_length)
  moreover have "nat (int n - 1) = n - 1" by simp
  moreover have "0 \<le> int n - 1" "int n - 1 \<le> int (length carr')" using n2 len' len1 by simp_all
  ultimately have "valid_collection carr' (int n - 1)"
    using bound unfolding valid_collection_def by simp
  then show ?thesis using di len' len1(2) pts by simp
qed

lemma iterations_ok:
  assumes al: "\<forall>k. al k" and pc: "pc = 0 \<or> pc = 1 \<or> pc = 2"
  shows "valid_collection carr (int n) \<Longrightarrow> Suc k \<le> n \<Longrightarrow>
         \<exists>carr' x1 x2. iterations k pc al carr (int n) c1 c2 = Inr (carr', int n - int k, x1, x2) \<and>
           valid_collection carr' (int n - int k) \<and> length carr' = length carr \<and>
           mset (points carr' (int n - int k)) = mset (points carr (int n))"
proof (induction k arbitrary: carr n c1 c2)
  case 0
  then show ?case by simp
next
  case (Suc k)
  have n2: "2 \<le> n" using Suc.prems(2) by simp
  from driver_iteration_ok[OF al Suc.prems(1) n2 pc, of c1 c2] obtain carr1 y1 y2 where
    d: "driver_iteration pc al carr (int n) c1 c2 = Inr (carr1, y1, y2)"
    and v1: "valid_collection carr1 (int n - 1)" and l1: "length carr1 = length carr"
    and p1: "mset (points carr1 (int n - 1)) = mset (points carr (int n))"
    by blast
  have e: "int n - 1 = int (n - 1)" using n2 by simp
  have v1': "valid_collection carr1 (int (n - 1))" using v1 unfolding e .
  have "Suc k \<le> n - 1" using Suc.prems(2) by simp
  from Suc.IH[OF v1' this, of y1 y2] obtain carr' x1 x2 where
    r: "iterations k pc al carr1 (int (n - 1)) y1 y2 = Inr (carr', int (n - 1) - int k, x1, x2)"
    and v: "valid_collection carr' (int (n - 1) - int k)" and l: "length carr' = length carr1"
    and p: "mset (points carr' (int (n - 1) - int k)) = mset (points carr1 (int (n - 1)))"
    by blast
  have e2: "int (n - 1) - int k = int n - int (Suc k)" using n2 by simp
  have "iterations (Suc k) pc al carr (int n) c1 c2 = Inr (carr', int n - int (Suc k), x1, x2)"
    using d r unfolding e2 e[symmetric] by simp
  moreover have "valid_collection carr' (int n - int (Suc k))" using v unfolding e2 .
  moreover have "mset (points carr' (int n - int (Suc k))) = mset (points carr (int n))"
  proof -
    have "mset (points carr' (int n - int (Suc k))) = mset (points carr1 (int (n - 1)))"
      using p unfolding e2 .
    also have "\<dots> = mset (points carr (int n))" using p1 unfolding e .
    finally show ?thesis .
  qed
  ultimately show ?case using l l1 by simp
qed

lemma cluster_loop_iterations:
  "k = nat (sz - narr) \<Longrightarrow>
   cluster_loop pc al clusters sz narr c1 c2 =
   (case iterations k pc al clusters sz c1 c2 of
      Inl e \<Rightarrow> Inl e
    | Inr (clusters', sz', x1, x2) \<Rightarrow> Inr (clusters', sz'))"
proof (induction k arbitrary: clusters sz c1 c2)
  case 0
  then have "\<not> narr < sz" by simp
  then show ?case by (subst cluster_loop.simps) simp
next
  case (Suc k)
  then have lt: "narr < sz" and k: "k = nat (sz - 1 - narr)" by simp_all
  show ?case
  proof (cases "driver_iteration pc al clusters sz c1 c2")
    case (Inl e)
    then show ?thesis using lt by (subst cluster_loop.simps) simp
  next
    case (Inr r)
    obtain clusters' y1 y2 where r: "r = (clusters', y1, y2)" by (cases r)
    show ?thesis
      using lt Inr r Suc.IH[OF k, of clusters' y1 y2]
      by (subst cluster_loop.simps) simp
  qed
qed

lemma sum_csize_points: "sum_list (map csize (take (nat n) carr)) = int (length (points carr n))"
proof -
  have "sum_list (map csize cs) = int (length (concat (map obj cs)))" for cs
    by (induction cs) (simp_all add: csize_def)
  then show ?thesis by (simp add: points_def)
qed

lemma distinct_concat_nth:
  "distinct (concat xss) \<Longrightarrow> m < m' \<Longrightarrow> m' < length xss \<Longrightarrow> x \<in> set (xss ! m) \<Longrightarrow>
   x \<notin> set (xss ! m')"
proof (induction xss arbitrary: m m')
  case Nil
  then show ?case by simp
next
  case (Cons ys rest)
  obtain k where k: "m' = Suc k" using Cons.prems(2) by (cases m') simp_all
  have d: "distinct (concat rest)" "set ys \<inter> set (concat rest) = {}"
    using Cons.prems(1) by simp_all
  have kl: "k < length rest" using Cons.prems(3) k by simp
  show ?case
  proof (cases m)
    case 0
    then have "x \<in> set ys" using Cons.prems(4) by simp
    moreover have "rest ! k \<in> set rest" using kl by (rule nth_mem)
    then have "set (rest ! k) \<subseteq> set (concat rest)" by auto
    ultimately show ?thesis using d(2) k by auto
  next
    case (Suc j)
    then have "x \<notin> set (rest ! k)"
      using Cons.IH[OF d(1), of j k] Cons.prems(2,4) k kl by simp
    then show ?thesis using k by simp
  qed
qed

lemma distinct_ids_one_cluster:
  assumes "distinct (map obj_id (concat (map obj cs)))" and "p \<in> set (concat (map obj cs))"
  shows "\<exists>!m. m < length cs \<and> obj_id p \<in> obj_id ` set (obj (cs ! m))"
proof -
  define xss where "xss = map (\<lambda>c. map obj_id (obj c)) cs"
  have cx: "map obj_id (concat (map obj cs)) = concat xss"
    by (simp add: xss_def map_concat comp_def)
  have dx: "distinct (concat xss)" using assms(1) cx by simp
  have nx: "set (xss ! m) = obj_id ` set (obj (cs ! m))" if "m < length cs" for m
    using that by (simp add: xss_def)
  from assms(2) obtain c where "c \<in> set cs" "p \<in> set (obj c)" by auto
  then obtain m where m: "m < length cs" "p \<in> set (obj (cs ! m))"
    by (metis in_set_conv_nth)
  have ex: "m < length cs \<and> obj_id p \<in> obj_id ` set (obj (cs ! m))" using m by simp
  have un: "m' = m" if m': "m' < length cs \<and> obj_id p \<in> obj_id ` set (obj (cs ! m'))" for m'
  proof (rule ccontr)
    assume ne: "m' \<noteq> m"
    have a: "obj_id p \<in> set (xss ! m)" "obj_id p \<in> set (xss ! m')"
      using ex m' nx by simp_all
    have l: "m < length xss" "m' < length xss" using m(1) m' by (simp_all add: xss_def)
    show False
    proof (cases "m < m'")
      case True
      then show False using distinct_concat_nth[OF dx True l(2) a(1)] a(2) by simp
    next
      case False
      then have "m' < m" using ne by simp
      then show False using distinct_concat_nth[OF dx _ l(1) a(2)] a(1) by simp
    qed
  qed
  show ?thesis using ex un by blast
qed

text \<open>
  C1.  Starting from a collection of \<open>sz\<close> non-empty clusters with finite coordinates,
  and when no allocation fails, \<open>k < sz\<close> passes through the body of the loop
  (\<^verbatim>\<open>find_neighbours\<close>, \<^verbatim>\<open>merge_clusters\<close>, \<^verbatim>\<open>remove_cluster\<close>, \<^verbatim>\<open>size--\<close>) all return
  normally and leave \<open>sz - k\<close> clusters; the sum of the sizes of these clusters is the sum
  of the sizes at the start, the objects of these clusters are exactly the objects at the
  start (as a multiset), and, the identifiers being pairwise distinct, the identifier of
  every object is in exactly one of the clusters.
\<close>

theorem iterations_conserve_points:
  assumes "\<forall>n. al n" and "valid_collection carr sz" and "pc = 0 \<or> pc = 1 \<or> pc = 2"
    and "int k < sz"
  shows "\<exists>carr' x1 x2.
           iterations k pc al carr sz c1 c2 = Inr (carr', sz - int k, x1, x2) \<and>
           sum_list (map csize (take (nat (sz - int k)) carr')) =
             sum_list (map csize (take (nat sz) carr)) \<and>
           mset (points carr' (sz - int k)) = mset (points carr sz) \<and>
           (distinct (map obj_id (points carr sz)) \<longrightarrow>
              (\<forall>p\<in>set (points carr sz).
                 \<exists>!m. m < nat (sz - int k) \<and> obj_id p \<in> obj_id ` set (obj (carr' ! m))))"
proof -
  define n where "n = nat sz"
  have n: "sz = int n" "Suc k \<le> n" using assms(4) by (simp_all add: n_def)
  have vc: "valid_collection carr (int n)" using assms(2) n(1) by simp
  from iterations_ok[OF assms(1,3) vc n(2), of c1 c2] obtain carr' x1 x2 where
    it: "iterations k pc al carr (int n) c1 c2 = Inr (carr', int n - int k, x1, x2)"
    and v: "valid_collection carr' (int n - int k)"
    and p: "mset (points carr' (int n - int k)) = mset (points carr (int n))"
    by blast
  have 1: "iterations k pc al carr sz c1 c2 = Inr (carr', sz - int k, x1, x2)"
    using it unfolding n(1) .
  have 3: "mset (points carr' (sz - int k)) = mset (points carr sz)"
    using p unfolding n(1) .
  have "length (points carr' (sz - int k)) = length (points carr sz)"
    using 3 by (rule mset_eq_length)
  then have 2: "sum_list (map csize (take (nat (sz - int k)) carr')) =
             sum_list (map csize (take (nat sz) carr))"
    by (simp add: sum_csize_points)
  have 4: "\<exists>!m. m < nat (sz - int k) \<and> obj_id p \<in> obj_id ` set (obj (carr' ! m))"
    if d: "distinct (map obj_id (points carr sz))" and pm: "p \<in> set (points carr sz)" for p
  proof -
    let ?cs = "take (nat (sz - int k)) carr'"
    have "mset (map obj_id (points carr' (sz - int k))) = mset (map obj_id (points carr sz))"
      using 3 by (metis mset_map)
    then have "distinct (map obj_id (points carr' (sz - int k)))"
      using d mset_eq_imp_distinct_iff by blast
    then have d': "distinct (map obj_id (concat (map obj ?cs)))" by (simp add: points_def)
    have "p \<in> set (points carr' (sz - int k))" using pm 3 by (metis mset_eq_setD)
    then have p': "p \<in> set (concat (map obj ?cs))" by (simp add: points_def)
    have "sz - int k \<le> int (length carr')"
      using v unfolding n(1) by (simp add: valid_collection_def)
    then have l: "length ?cs = nat (sz - int k)" by simp
    have e: "?cs ! m = carr' ! m" if "m < nat (sz - int k)" for m using that by simp
    from distinct_ids_one_cluster[OF d' p'] l e show ?thesis by (metis (no_types, lifting))
  qed
  show ?thesis using 1 2 3 4 by blast
qed

theorem iterations_conserve_points_witness:
  "(\<forall>n. unlimited n) \<and>
   valid_collection
     [\<lparr>capacity = 1, obj = [\<lparr>obj_id = 1, obj_x = Fin 1, obj_y = Fin 1\<rparr>]\<rparr>,
      \<lparr>capacity = 1, obj = [\<lparr>obj_id = 2, obj_x = Fin 2, obj_y = Fin 2\<rparr>]\<rparr>,
      \<lparr>capacity = 1, obj = [\<lparr>obj_id = 3, obj_x = Fin 3, obj_y = Fin 3\<rparr>]\<rparr>] 3 \<and>
   ((1::int) = 0 \<or> (1::int) = 1 \<or> (1::int) = 2) \<and> int 1 < 3 \<and>
   (\<exists>carr' x1 x2.
      iterations 1 1 unlimited
        [\<lparr>capacity = 1, obj = [\<lparr>obj_id = 1, obj_x = Fin 1, obj_y = Fin 1\<rparr>]\<rparr>,
         \<lparr>capacity = 1, obj = [\<lparr>obj_id = 2, obj_x = Fin 2, obj_y = Fin 2\<rparr>]\<rparr>,
         \<lparr>capacity = 1, obj = [\<lparr>obj_id = 3, obj_x = Fin 3, obj_y = Fin 3\<rparr>]\<rparr>] 3 None None =
        Inr (carr', 3 - int 1, x1, x2) \<and>
      mset (points carr' (3 - int 1)) =
      mset (points
        [\<lparr>capacity = 1, obj = [\<lparr>obj_id = 1, obj_x = Fin 1, obj_y = Fin 1\<rparr>]\<rparr>,
         \<lparr>capacity = 1, obj = [\<lparr>obj_id = 2, obj_x = Fin 2, obj_y = Fin 2\<rparr>]\<rparr>,
         \<lparr>capacity = 1, obj = [\<lparr>obj_id = 3, obj_x = Fin 3, obj_y = Fin 3\<rparr>]\<rparr>] 3))"
proof -
  let ?C = "[\<lparr>capacity = 1, obj = [\<lparr>obj_id = 1, obj_x = Fin 1, obj_y = Fin 1\<rparr>]\<rparr>,
             \<lparr>capacity = 1, obj = [\<lparr>obj_id = 2, obj_x = Fin 2, obj_y = Fin 2\<rparr>]\<rparr>,
             \<lparr>capacity = 1, obj = [\<lparr>obj_id = 3, obj_x = Fin 3, obj_y = Fin 3\<rparr>]\<rparr>]"
  have h1: "\<forall>n. unlimited n" by (simp add: unlimited_def)
  have h2: "valid_collection ?C 3"
    by (simp add: valid_collection_def valid_cluster_def finite_obj_def csize_def points_def
          INT_MAX_def)
  have h3: "(1::int) = 0 \<or> (1::int) = 1 \<or> (1::int) = 2" by simp
  have h4: "int 1 < 3" by simp
  from iterations_conserve_points[OF h1 h2 h3 h4, of None None] obtain carr' x1 x2 where
    "iterations 1 1 unlimited ?C 3 None None = Inr (carr', 3 - int 1, x1, x2)"
    "mset (points carr' (3 - int 1)) = mset (points ?C 3)"
    by blast
  then have "\<exists>carr' x1 x2.
      iterations 1 1 unlimited ?C 3 None None = Inr (carr', 3 - int 1, x1, x2) \<and>
      mset (points carr' (3 - int 1)) = mset (points ?C 3)"
    by blast
  then show ?thesis using h1 h2 by simp
qed

text \<open>
  C2.  For a collection of \<open>initialSize\<close> non-empty clusters with finite coordinates and a
  target \<open>1 \<le> N \<le> initialSize\<close>, and when no allocation fails, the loop of \<^verbatim>\<open>main\<close>
  returns normally with \<open>N\<close> clusters; its result is the state after exactly
  \<open>initialSize - N\<close> passes through its body, and after any smaller number \<open>k\<close> of passes
  there are \<open>initialSize - k > N\<close> clusters, so that the loop does not stop earlier.
\<close>

theorem cluster_loop_reaches_target:
  assumes "\<forall>n. al n" and "valid_collection carr initialSize"
    and "pc = 0 \<or> pc = 1 \<or> pc = 2" and "1 \<le> N" and "N \<le> initialSize"
  shows "\<exists>carr'. cluster_loop pc al carr initialSize N c1 c2 = Inr (carr', N) \<and>
           valid_collection carr' N \<and>
           (\<exists>x1 x2. iterations (nat (initialSize - N)) pc al carr initialSize c1 c2 =
                    Inr (carr', N, x1, x2)) \<and>
           (\<forall>k<nat (initialSize - N).
              \<exists>carr'' x1 x2. iterations k pc al carr initialSize c1 c2 =
                              Inr (carr'', initialSize - int k, x1, x2) \<and>
                            N < initialSize - int k)"
proof -
  define n where "n = nat initialSize"
  define k where "k = nat (initialSize - N)"
  have n: "initialSize = int n" using assms(4,5) by (simp add: n_def)
  have vc: "valid_collection carr (int n)" using assms(2) n by simp
  have k: "Suc k \<le> n" "int n - int k = N" using assms(4,5) n by (simp_all add: k_def)
  from iterations_ok[OF assms(1,3) vc k(1), of c1 c2] obtain carr' x1 x2 where
    it: "iterations k pc al carr (int n) c1 c2 = Inr (carr', int n - int k, x1, x2)"
    and v: "valid_collection carr' (int n - int k)"
    by blast
  have it': "iterations k pc al carr initialSize c1 c2 = Inr (carr', N, x1, x2)"
    using it unfolding k(2) n .
  have 1: "cluster_loop pc al carr initialSize N c1 c2 = Inr (carr', N)"
    using cluster_loop_iterations[of k initialSize N pc al carr c1 c2] it'
    by (simp add: k_def)
  have 2: "valid_collection carr' N" using v unfolding k(2) .
  have 3: "\<exists>x1 x2. iterations (nat (initialSize - N)) pc al carr initialSize c1 c2 =
                    Inr (carr', N, x1, x2)"
    using it' unfolding k_def by blast
  have 4: "\<exists>carr'' x1 x2. iterations j pc al carr initialSize c1 c2 =
                              Inr (carr'', initialSize - int j, x1, x2) \<and>
                            N < initialSize - int j"
    if "j < nat (initialSize - N)" for j
  proof -
    have j: "Suc j \<le> n" "N < initialSize - int j" using that k(1) n by (simp_all add: k_def)
    from iterations_ok[OF assms(1,3) vc j(1), of c1 c2] obtain carr'' y1 y2 where
      "iterations j pc al carr (int n) c1 c2 = Inr (carr'', int n - int j, y1, y2)"
      by blast
    then show ?thesis using j(2) unfolding n by blast
  qed
  show ?thesis using 1 2 3 4 by blast
qed

theorem cluster_loop_reaches_target_witness:
  "(\<forall>n. unlimited n) \<and>
   valid_collection
     [\<lparr>capacity = 1, obj = [\<lparr>obj_id = 1, obj_x = Fin 1, obj_y = Fin 1\<rparr>]\<rparr>,
      \<lparr>capacity = 1, obj = [\<lparr>obj_id = 2, obj_x = Fin 2, obj_y = Fin 2\<rparr>]\<rparr>,
      \<lparr>capacity = 1, obj = [\<lparr>obj_id = 3, obj_x = Fin 3, obj_y = Fin 3\<rparr>]\<rparr>] 3 \<and>
   ((2::int) = 0 \<or> (2::int) = 1 \<or> (2::int) = 2) \<and> (1::int) \<le> 1 \<and> (1::int) \<le> 3 \<and>
   (\<exists>carr'. cluster_loop 2 unlimited
        [\<lparr>capacity = 1, obj = [\<lparr>obj_id = 1, obj_x = Fin 1, obj_y = Fin 1\<rparr>]\<rparr>,
         \<lparr>capacity = 1, obj = [\<lparr>obj_id = 2, obj_x = Fin 2, obj_y = Fin 2\<rparr>]\<rparr>,
         \<lparr>capacity = 1, obj = [\<lparr>obj_id = 3, obj_x = Fin 3, obj_y = Fin 3\<rparr>]\<rparr>] 3 1 None None =
        Inr (carr', 1))"
proof -
  let ?C = "[\<lparr>capacity = 1, obj = [\<lparr>obj_id = 1, obj_x = Fin 1, obj_y = Fin 1\<rparr>]\<rparr>,
             \<lparr>capacity = 1, obj = [\<lparr>obj_id = 2, obj_x = Fin 2, obj_y = Fin 2\<rparr>]\<rparr>,
             \<lparr>capacity = 1, obj = [\<lparr>obj_id = 3, obj_x = Fin 3, obj_y = Fin 3\<rparr>]\<rparr>]"
  have h1: "\<forall>n. unlimited n" by (simp add: unlimited_def)
  have h2: "valid_collection ?C 3"
    by (simp add: valid_collection_def valid_cluster_def finite_obj_def csize_def points_def
          INT_MAX_def)
  have h3: "(2::int) = 0 \<or> (2::int) = 1 \<or> (2::int) = 2" by simp
  have h4: "(1::int) \<le> 1" and h5: "(1::int) \<le> 3" by simp_all
  from cluster_loop_reaches_target[OF h1 h2 h3 h4 h5, of None None] obtain carr' where
    "cluster_loop 2 unlimited ?C 3 1 None None = Inr (carr', 1)"
    by blast
  then have "\<exists>carr'. cluster_loop 2 unlimited ?C 3 1 None None = Inr (carr', 1)"
    by blast
  then show ?thesis using h1 h2 by simp
qed

section \<open>The example of four points\<close>

text \<open>
  The collection that the loader builds for the points \<open>1:(1,1)\<close>, \<open>2:(2,2)\<close>, \<open>3:(3,3)\<close>
  and \<open>4:(10,10)\<close> (\<^verbatim>\<open>init_cluster\<close> with capacity 1, then one append), clustered with
  the average method down to two clusters.  First the roundings and the distances that
  occur in the two passes.
\<close>

lemma binary32_float_of_int_24: "float_of_int 1 = Fin 1"
  by code_simp

lemma binary32_float_of_int_25: "float_of_int 2 = Fin 2"
  by code_simp

lemma binary32_sqrt_rnd_26: "sqrt_rnd 8 = 11863283 / 4194304"
  by code_simp

lemma binary32_sqrt_rnd_27: "sqrt_rnd 98 = 10380373 / 1048576"
  by code_simp

lemma binary32_sqrt_rnd_28: "sqrt_rnd 128 = 11863283 / 1048576"
  by code_simp

lemma binary32_sqrt_rnd_29: "sqrt_rnd 162 = 6673097 / 524288"
  by code_simp

lemma binary32_to_float_30: "to_float (- 9) = Fin (- 9)"
  by code_simp

lemma binary32_to_float_31: "to_float (- 8) = Fin (- 8)"
  by code_simp

lemma binary32_to_float_32: "to_float (- 7) = Fin (- 7)"
  by code_simp

lemma binary32_to_float_33: "to_float (- 2) = Fin (- 2)"
  by code_simp

lemma binary32_to_float_34: "to_float (4448731 / 2097152) = Fin (4448731 / 2097152)"
  by code_simp

lemma binary32_to_float_35: "to_float 4 = Fin 4"
  by code_simp

lemma binary32_to_float_36: "to_float (35589849 / 8388608) = Fin (4448731 / 1048576)"
  by code_simp

lemma binary32_to_float_37: "to_float 8 = Fin 8"
  by code_simp

lemma binary32_to_float_38: "to_float (10380373 / 1048576) = Fin (10380373 / 1048576)"
  by code_simp

lemma binary32_to_float_39: "to_float (2780457 / 262144) = Fin (2780457 / 262144)"
  by code_simp

lemma binary32_to_float_40: "to_float (11863283 / 1048576) = Fin (11863283 / 1048576)"
  by code_simp

lemma binary32_to_float_41: "to_float (6673097 / 524288) = Fin (6673097 / 524288)"
  by code_simp

lemma binary32_to_float_42: "to_float (2780457 / 131072) = Fin (2780457 / 131072)"
  by code_simp

lemma binary32_to_float_43: "to_float 49 = Fin 49"
  by code_simp

lemma binary32_to_float_44: "to_float 64 = Fin 64"
  by code_simp

lemma binary32_to_float_45: "to_float 81 = Fin 81"
  by code_simp

lemma binary32_to_float_46: "to_float 98 = Fin 98"
  by code_simp

lemma binary32_to_float_47: "to_float 128 = Fin 128"
  by code_simp

lemma binary32_to_float_48: "to_float 162 = Fin 162"
  by code_simp

lemmas example_values = binary32_float_of_int_24 binary32_float_of_int_25 binary32_sqrt_rnd_2 binary32_sqrt_rnd_26 binary32_sqrt_rnd_27 binary32_sqrt_rnd_28 binary32_sqrt_rnd_29 binary32_to_float_10 binary32_to_float_11 binary32_to_float_30 binary32_to_float_31 binary32_to_float_32 binary32_to_float_33 binary32_to_float_34 binary32_to_float_35 binary32_to_float_36 binary32_to_float_37 binary32_to_float_38 binary32_to_float_39 binary32_to_float_40 binary32_to_float_41 binary32_to_float_42 binary32_to_float_43 binary32_to_float_44 binary32_to_float_45 binary32_to_float_46 binary32_to_float_47 binary32_to_float_48 binary32_to_float_5 binary32_to_float_6 binary32_to_float_7

lemma example_distance_1_01:
  "cluster_distance 0 \<lparr>capacity = 1, obj = [\<lparr>obj_id = 1, obj_x = Fin 1, obj_y = Fin 1\<rparr>]\<rparr>
     \<lparr>capacity = 1, obj = [\<lparr>obj_id = 2, obj_x = Fin 2, obj_y = Fin 2\<rparr>]\<rparr> =
   Inr (Fin (11863283 / 8388608))"
  by (simp add: cluster_distance_def csize_def INT_MAX_def obj_distance_def fsub_def
        example_values)

lemma example_distance_1_02:
  "cluster_distance 0 \<lparr>capacity = 1, obj = [\<lparr>obj_id = 1, obj_x = Fin 1, obj_y = Fin 1\<rparr>]\<rparr>
     \<lparr>capacity = 1, obj = [\<lparr>obj_id = 3, obj_x = Fin 3, obj_y = Fin 3\<rparr>]\<rparr> =
   Inr (Fin (11863283 / 4194304))"
  by (simp add: cluster_distance_def csize_def INT_MAX_def obj_distance_def fsub_def
        example_values)

lemma example_distance_1_03:
  "cluster_distance 0 \<lparr>capacity = 1, obj = [\<lparr>obj_id = 1, obj_x = Fin 1, obj_y = Fin 1\<rparr>]\<rparr>
     \<lparr>capacity = 1, obj = [\<lparr>obj_id = 4, obj_x = Fin 10, obj_y = Fin 10\<rparr>]\<rparr> =
   Inr (Fin (6673097 / 524288))"
  by (simp add: cluster_distance_def csize_def INT_MAX_def obj_distance_def fsub_def
        example_values)

lemma example_distance_1_12:
  "cluster_distance 0 \<lparr>capacity = 1, obj = [\<lparr>obj_id = 2, obj_x = Fin 2, obj_y = Fin 2\<rparr>]\<rparr>
     \<lparr>capacity = 1, obj = [\<lparr>obj_id = 3, obj_x = Fin 3, obj_y = Fin 3\<rparr>]\<rparr> =
   Inr (Fin (11863283 / 8388608))"
  by (simp add: cluster_distance_def csize_def INT_MAX_def obj_distance_def fsub_def
        example_values)

lemma example_distance_1_13:
  "cluster_distance 0 \<lparr>capacity = 1, obj = [\<lparr>obj_id = 2, obj_x = Fin 2, obj_y = Fin 2\<rparr>]\<rparr>
     \<lparr>capacity = 1, obj = [\<lparr>obj_id = 4, obj_x = Fin 10, obj_y = Fin 10\<rparr>]\<rparr> =
   Inr (Fin (11863283 / 1048576))"
  by (simp add: cluster_distance_def csize_def INT_MAX_def obj_distance_def fsub_def
        example_values)

lemma example_distance_1_23:
  "cluster_distance 0 \<lparr>capacity = 1, obj = [\<lparr>obj_id = 3, obj_x = Fin 3, obj_y = Fin 3\<rparr>]\<rparr>
     \<lparr>capacity = 1, obj = [\<lparr>obj_id = 4, obj_x = Fin 10, obj_y = Fin 10\<rparr>]\<rparr> =
   Inr (Fin (10380373 / 1048576))"
  by (simp add: cluster_distance_def csize_def INT_MAX_def obj_distance_def fsub_def
        example_values)

lemma example_distance_2_01:
  "cluster_distance 0 \<lparr>capacity = 1, obj = [\<lparr>obj_id = 1, obj_x = Fin 1, obj_y = Fin 1\<rparr>]\<rparr>
     \<lparr>capacity = 11, obj = [\<lparr>obj_id = 2, obj_x = Fin 2, obj_y = Fin 2\<rparr>,
                              \<lparr>obj_id = 3, obj_x = Fin 3, obj_y = Fin 3\<rparr>]\<rparr> =
   Inr (Fin (4448731 / 2097152))"
  by (simp add: cluster_distance_def csize_def INT_MAX_def obj_distance_def fsub_def
        example_values)

lemma example_distance_2_02:
  "cluster_distance 0 \<lparr>capacity = 1, obj = [\<lparr>obj_id = 1, obj_x = Fin 1, obj_y = Fin 1\<rparr>]\<rparr>
     \<lparr>capacity = 10, obj = [\<lparr>obj_id = 4, obj_x = Fin 10, obj_y = Fin 10\<rparr>]\<rparr> =
   Inr (Fin (6673097 / 524288))"
  by (simp add: cluster_distance_def csize_def INT_MAX_def obj_distance_def fsub_def
        example_values)

lemma example_distance_2_12:
  "cluster_distance 0 \<lparr>capacity = 11, obj = [\<lparr>obj_id = 2, obj_x = Fin 2, obj_y = Fin 2\<rparr>,
                              \<lparr>obj_id = 3, obj_x = Fin 3, obj_y = Fin 3\<rparr>]\<rparr>
     \<lparr>capacity = 10, obj = [\<lparr>obj_id = 4, obj_x = Fin 10, obj_y = Fin 10\<rparr>]\<rparr> =
   Inr (Fin (2780457 / 262144))"
  by (simp add: cluster_distance_def csize_def INT_MAX_def obj_distance_def fsub_def
        example_values)

lemmas example_distances = example_distance_1_01 example_distance_1_02 example_distance_1_03 example_distance_1_12 example_distance_1_13 example_distance_1_23 example_distance_2_01 example_distance_2_02 example_distance_2_12

lemma example_find_1:
  "find_neighbours 0
     [\<lparr>capacity = 1, obj = [\<lparr>obj_id = 1, obj_x = Fin 1, obj_y = Fin 1\<rparr>]\<rparr>,
      \<lparr>capacity = 1, obj = [\<lparr>obj_id = 2, obj_x = Fin 2, obj_y = Fin 2\<rparr>]\<rparr>,
      \<lparr>capacity = 1, obj = [\<lparr>obj_id = 3, obj_x = Fin 3, obj_y = Fin 3\<rparr>]\<rparr>,
      \<lparr>capacity = 1, obj = [\<lparr>obj_id = 4, obj_x = Fin 10, obj_y = Fin 10\<rparr>]\<rparr>] 4 None None =
   Inr (Some 1, Some 2)"
  by (simp add: find_neighbours_def find_outer.simps find_inner.simps in_array_def
        example_distances)

lemma example_find_2:
  "find_neighbours 0
     [\<lparr>capacity = 1, obj = [\<lparr>obj_id = 1, obj_x = Fin 1, obj_y = Fin 1\<rparr>]\<rparr>,
      \<lparr>capacity = 11, obj = [\<lparr>obj_id = 2, obj_x = Fin 2, obj_y = Fin 2\<rparr>,
                              \<lparr>obj_id = 3, obj_x = Fin 3, obj_y = Fin 3\<rparr>]\<rparr>,
      \<lparr>capacity = 10, obj = [\<lparr>obj_id = 4, obj_x = Fin 10, obj_y = Fin 10\<rparr>]\<rparr>,
      \<lparr>capacity = 0, obj = []\<rparr>] 3 (Some 1) (Some 2) =
   Inr (Some 0, Some 1)"
  by (simp add: find_neighbours_def find_outer.simps find_inner.simps in_array_def
        example_distances)

lemma example_merge_1:
  "merge_clusters unlimited \<lparr>capacity = 1, obj = [\<lparr>obj_id = 2, obj_x = Fin 2, obj_y = Fin 2\<rparr>]\<rparr>
     \<lparr>capacity = 1, obj = [\<lparr>obj_id = 3, obj_x = Fin 3, obj_y = Fin 3\<rparr>]\<rparr> =
   Inr \<lparr>capacity = 11, obj = [\<lparr>obj_id = 2, obj_x = Fin 2, obj_y = Fin 2\<rparr>,
                              \<lparr>obj_id = 3, obj_x = Fin 3, obj_y = Fin 3\<rparr>]\<rparr>"
  by (simp add: merge_clusters_def sort_cluster_def append_cluster_def resize_cluster_def
        grow_cap.simps CLUSTER_CHUNK_def INT_MAX_def csize_def unlimited_def)

lemma example_merge_2:
  "merge_clusters unlimited \<lparr>capacity = 1, obj = [\<lparr>obj_id = 1, obj_x = Fin 1, obj_y = Fin 1\<rparr>]\<rparr>
     \<lparr>capacity = 11, obj = [\<lparr>obj_id = 2, obj_x = Fin 2, obj_y = Fin 2\<rparr>,
                              \<lparr>obj_id = 3, obj_x = Fin 3, obj_y = Fin 3\<rparr>]\<rparr> =
   Inr \<lparr>capacity = 11, obj = [\<lparr>obj_id = 1, obj_x = Fin 1, obj_y = Fin 1\<rparr>,
                              \<lparr>obj_id = 2, obj_x = Fin 2, obj_y = Fin 2\<rparr>,
                              \<lparr>obj_id = 3, obj_x = Fin 3, obj_y = Fin 3\<rparr>]\<rparr>"
  by (simp add: merge_clusters_def sort_cluster_def append_cluster_def resize_cluster_def
        grow_cap.simps CLUSTER_CHUNK_def INT_MAX_def csize_def unlimited_def)

lemma example_remove_1:
  "remove_cluster unlimited
     [\<lparr>capacity = 1, obj = [\<lparr>obj_id = 1, obj_x = Fin 1, obj_y = Fin 1\<rparr>]\<rparr>,
      \<lparr>capacity = 11, obj = [\<lparr>obj_id = 2, obj_x = Fin 2, obj_y = Fin 2\<rparr>,
                              \<lparr>obj_id = 3, obj_x = Fin 3, obj_y = Fin 3\<rparr>]\<rparr>,
      \<lparr>capacity = 1, obj = [\<lparr>obj_id = 3, obj_x = Fin 3, obj_y = Fin 3\<rparr>]\<rparr>,
      \<lparr>capacity = 1, obj = [\<lparr>obj_id = 4, obj_x = Fin 10, obj_y = Fin 10\<rparr>]\<rparr>] 4 2 =
   Inr ([\<lparr>capacity = 1, obj = [\<lparr>obj_id = 1, obj_x = Fin 1, obj_y = Fin 1\<rparr>]\<rparr>,
      \<lparr>capacity = 11, obj = [\<lparr>obj_id = 2, obj_x = Fin 2, obj_y = Fin 2\<rparr>,
                              \<lparr>obj_id = 3, obj_x = Fin 3, obj_y = Fin 3\<rparr>]\<rparr>,
      \<lparr>capacity = 10, obj = [\<lparr>obj_id = 4, obj_x = Fin 10, obj_y = Fin 10\<rparr>]\<rparr>,
      \<lparr>capacity = 0, obj = []\<rparr>], 3)"
  by code_simp

lemma example_remove_2:
  "remove_cluster unlimited
     [\<lparr>capacity = 11, obj = [\<lparr>obj_id = 1, obj_x = Fin 1, obj_y = Fin 1\<rparr>,
                              \<lparr>obj_id = 2, obj_x = Fin 2, obj_y = Fin 2\<rparr>,
                              \<lparr>obj_id = 3, obj_x = Fin 3, obj_y = Fin 3\<rparr>]\<rparr>,
      \<lparr>capacity = 11, obj = [\<lparr>obj_id = 2, obj_x = Fin 2, obj_y = Fin 2\<rparr>,
                              \<lparr>obj_id = 3, obj_x = Fin 3, obj_y = Fin 3\<rparr>]\<rparr>,
      \<lparr>capacity = 10, obj = [\<lparr>obj_id = 4, obj_x = Fin 10, obj_y = Fin 10\<rparr>]\<rparr>,
      \<lparr>capacity = 0, obj = []\<rparr>] 3 1 =
   Inr ([\<lparr>capacity = 11, obj = [\<lparr>obj_id = 1, obj_x = Fin 1, obj_y = Fin 1\<rparr>,
                              \<lparr>obj_id = 2, obj_x = Fin 2, obj_y = Fin 2\<rparr>,
                              \<lparr>obj_id = 3, obj_x = Fin 3, obj_y = Fin 3\<rparr>]\<rparr>,
      \<lparr>capacity = 10, obj = [\<lparr>obj_id = 4, obj_x = Fin 10, obj_y = Fin 10\<rparr>]\<rparr>,
      \<lparr>capacity = 0, obj = []\<rparr>,
      \<lparr>capacity = 0, obj = []\<rparr>], 2)"
  by code_simp

lemma example_iteration_1:
  "driver_iteration 0 unlimited
     [\<lparr>capacity = 1, obj = [\<lparr>obj_id = 1, obj_x = Fin 1, obj_y = Fin 1\<rparr>]\<rparr>,
      \<lparr>capacity = 1, obj = [\<lparr>obj_id = 2, obj_x = Fin 2, obj_y = Fin 2\<rparr>]\<rparr>,
      \<lparr>capacity = 1, obj = [\<lparr>obj_id = 3, obj_x = Fin 3, obj_y = Fin 3\<rparr>]\<rparr>,
      \<lparr>capacity = 1, obj = [\<lparr>obj_id = 4, obj_x = Fin 10, obj_y = Fin 10\<rparr>]\<rparr>] 4 None None =
   Inr ([\<lparr>capacity = 1, obj = [\<lparr>obj_id = 1, obj_x = Fin 1, obj_y = Fin 1\<rparr>]\<rparr>,
      \<lparr>capacity = 11, obj = [\<lparr>obj_id = 2, obj_x = Fin 2, obj_y = Fin 2\<rparr>,
                              \<lparr>obj_id = 3, obj_x = Fin 3, obj_y = Fin 3\<rparr>]\<rparr>,
      \<lparr>capacity = 10, obj = [\<lparr>obj_id = 4, obj_x = Fin 10, obj_y = Fin 10\<rparr>]\<rparr>,
      \<lparr>capacity = 0, obj = []\<rparr>], Some 1, Some 2)"
  by (simp add: driver_iteration_def in_array_def example_find_1 example_merge_1
        example_remove_1)

lemma example_iteration_2:
  "driver_iteration 0 unlimited
     [\<lparr>capacity = 1, obj = [\<lparr>obj_id = 1, obj_x = Fin 1, obj_y = Fin 1\<rparr>]\<rparr>,
      \<lparr>capacity = 11, obj = [\<lparr>obj_id = 2, obj_x = Fin 2, obj_y = Fin 2\<rparr>,
                              \<lparr>obj_id = 3, obj_x = Fin 3, obj_y = Fin 3\<rparr>]\<rparr>,
      \<lparr>capacity = 10, obj = [\<lparr>obj_id = 4, obj_x = Fin 10, obj_y = Fin 10\<rparr>]\<rparr>,
      \<lparr>capacity = 0, obj = []\<rparr>] 3 (Some 1) (Some 2) =
   Inr ([\<lparr>capacity = 11, obj = [\<lparr>obj_id = 1, obj_x = Fin 1, obj_y = Fin 1\<rparr>,
                              \<lparr>obj_id = 2, obj_x = Fin 2, obj_y = Fin 2\<rparr>,
                              \<lparr>obj_id = 3, obj_x = Fin 3, obj_y = Fin 3\<rparr>]\<rparr>,
      \<lparr>capacity = 10, obj = [\<lparr>obj_id = 4, obj_x = Fin 10, obj_y = Fin 10\<rparr>]\<rparr>,
      \<lparr>capacity = 0, obj = []\<rparr>,
      \<lparr>capacity = 0, obj = []\<rparr>], Some 0, Some 1)"
  by (simp add: driver_iteration_def in_array_def example_find_2 example_merge_2
        example_remove_2)

text \<open>
  C9.  On the four points, with the average method and the target 2: the distances of
  the pairs \<open>{1},{2}\<close> and \<open>{2},{3}\<close> are the same binary32 number, and the first search
  returns the pair scanned later, \<open>{2},{3}\<close>; the first pass leaves \<open>{1}\<close>, \<open>{2,3}\<close>,
  \<open>{4}\<close>; the second search returns \<open>{1}\<close> and \<open>{2,3}\<close>; the loop ends after the second
  pass with the two clusters \<open>{1,2,3}\<close>, in this order, and \<open>{4}\<close>.
\<close>

theorem four_points_example:
  "cluster_distance 0 \<lparr>capacity = 1, obj = [\<lparr>obj_id = 1, obj_x = Fin 1, obj_y = Fin 1\<rparr>]\<rparr>
     \<lparr>capacity = 1, obj = [\<lparr>obj_id = 2, obj_x = Fin 2, obj_y = Fin 2\<rparr>]\<rparr> =
   cluster_distance 0 \<lparr>capacity = 1, obj = [\<lparr>obj_id = 2, obj_x = Fin 2, obj_y = Fin 2\<rparr>]\<rparr>
     \<lparr>capacity = 1, obj = [\<lparr>obj_id = 3, obj_x = Fin 3, obj_y = Fin 3\<rparr>]\<rparr> \<and>
   find_neighbours 0
     [\<lparr>capacity = 1, obj = [\<lparr>obj_id = 1, obj_x = Fin 1, obj_y = Fin 1\<rparr>]\<rparr>,
      \<lparr>capacity = 1, obj = [\<lparr>obj_id = 2, obj_x = Fin 2, obj_y = Fin 2\<rparr>]\<rparr>,
      \<lparr>capacity = 1, obj = [\<lparr>obj_id = 3, obj_x = Fin 3, obj_y = Fin 3\<rparr>]\<rparr>,
      \<lparr>capacity = 1, obj = [\<lparr>obj_id = 4, obj_x = Fin 10, obj_y = Fin 10\<rparr>]\<rparr>] 4 None None =
   Inr (Some 1, Some 2) \<and>
   iterations 1 0 unlimited
     [\<lparr>capacity = 1, obj = [\<lparr>obj_id = 1, obj_x = Fin 1, obj_y = Fin 1\<rparr>]\<rparr>,
      \<lparr>capacity = 1, obj = [\<lparr>obj_id = 2, obj_x = Fin 2, obj_y = Fin 2\<rparr>]\<rparr>,
      \<lparr>capacity = 1, obj = [\<lparr>obj_id = 3, obj_x = Fin 3, obj_y = Fin 3\<rparr>]\<rparr>,
      \<lparr>capacity = 1, obj = [\<lparr>obj_id = 4, obj_x = Fin 10, obj_y = Fin 10\<rparr>]\<rparr>] 4 None None =
   Inr ([\<lparr>capacity = 1, obj = [\<lparr>obj_id = 1, obj_x = Fin 1, obj_y = Fin 1\<rparr>]\<rparr>,
      \<lparr>capacity = 11, obj = [\<lparr>obj_id = 2, obj_x = Fin 2, obj_y = Fin 2\<rparr>,
                              \<lparr>obj_id = 3, obj_x = Fin 3, obj_y = Fin 3\<rparr>]\<rparr>,
      \<lparr>capacity = 10, obj = [\<lparr>obj_id = 4, obj_x = Fin 10, obj_y = Fin 10\<rparr>]\<rparr>,
      \<lparr>capacity = 0, obj = []\<rparr>], 3, Some 1, Some 2) \<and>
   find_neighbours 0
     [\<lparr>capacity = 1, obj = [\<lparr>obj_id = 1, obj_x = Fin 1, obj_y = Fin 1\<rparr>]\<rparr>,
      \<lparr>capacity = 11, obj = [\<lparr>obj_id = 2, obj_x = Fin 2, obj_y = Fin 2\<rparr>,
                              \<lparr>obj_id = 3, obj_x = Fin 3, obj_y = Fin 3\<rparr>]\<rparr>,
      \<lparr>capacity = 10, obj = [\<lparr>obj_id = 4, obj_x = Fin 10, obj_y = Fin 10\<rparr>]\<rparr>,
      \<lparr>capacity = 0, obj = []\<rparr>] 3 (Some 1) (Some 2) =
   Inr (Some 0, Some 1) \<and>
   cluster_loop 0 unlimited
     [\<lparr>capacity = 1, obj = [\<lparr>obj_id = 1, obj_x = Fin 1, obj_y = Fin 1\<rparr>]\<rparr>,
      \<lparr>capacity = 1, obj = [\<lparr>obj_id = 2, obj_x = Fin 2, obj_y = Fin 2\<rparr>]\<rparr>,
      \<lparr>capacity = 1, obj = [\<lparr>obj_id = 3, obj_x = Fin 3, obj_y = Fin 3\<rparr>]\<rparr>,
      \<lparr>capacity = 1, obj = [\<lparr>obj_id = 4, obj_x = Fin 10, obj_y = Fin 10\<rparr>]\<rparr>] 4 2 None None =
   Inr ([\<lparr>capacity = 11, obj = [\<lparr>obj_id = 1, obj_x = Fin 1, obj_y = Fin 1\<rparr>,
                              \<lparr>obj_id = 2, obj_x = Fin 2, obj_y = Fin 2\<rparr>,
                              \<lparr>obj_id = 3, obj_x = Fin 3, obj_y = Fin 3\<rparr>]\<rparr>,
      \<lparr>capacity = 10, obj = [\<lparr>obj_id = 4, obj_x = Fin 10, obj_y = Fin 10\<rparr>]\<rparr>,
      \<lparr>capacity = 0, obj = []\<rparr>,
      \<lparr>capacity = 0, obj = []\<rparr>], 2) \<and>
   map (map obj_id \<circ> obj) (take 2
     [\<lparr>capacity = 11, obj = [\<lparr>obj_id = 1, obj_x = Fin 1, obj_y = Fin 1\<rparr>,
                              \<lparr>obj_id = 2, obj_x = Fin 2, obj_y = Fin 2\<rparr>,
                              \<lparr>obj_id = 3, obj_x = Fin 3, obj_y = Fin 3\<rparr>]\<rparr>,
      \<lparr>capacity = 10, obj = [\<lparr>obj_id = 4, obj_x = Fin 10, obj_y = Fin 10\<rparr>]\<rparr>,
      \<lparr>capacity = 0, obj = []\<rparr>,
      \<lparr>capacity = 0, obj = []\<rparr>]) =
   [[1, 2, 3], [4]]"
proof -
  have "cluster_loop 0 unlimited
     [\<lparr>capacity = 1, obj = [\<lparr>obj_id = 1, obj_x = Fin 1, obj_y = Fin 1\<rparr>]\<rparr>,
      \<lparr>capacity = 1, obj = [\<lparr>obj_id = 2, obj_x = Fin 2, obj_y = Fin 2\<rparr>]\<rparr>,
      \<lparr>capacity = 1, obj = [\<lparr>obj_id = 3, obj_x = Fin 3, obj_y = Fin 3\<rparr>]\<rparr>,
      \<lparr>capacity = 1, obj = [\<lparr>obj_id = 4, obj_x = Fin 10, obj_y = Fin 10\<rparr>]\<rparr>] 4 2 None None =
   Inr ([\<lparr>capacity = 11, obj = [\<lparr>obj_id = 1, obj_x = Fin 1, obj_y = Fin 1\<rparr>,
                              \<lparr>obj_id = 2, obj_x = Fin 2, obj_y = Fin 2\<rparr>,
                              \<lparr>obj_id = 3, obj_x = Fin 3, obj_y = Fin 3\<rparr>]\<rparr>,
      \<lparr>capacity = 10, obj = [\<lparr>obj_id = 4, obj_x = Fin 10, obj_y = Fin 10\<rparr>]\<rparr>,
      \<lparr>capacity = 0, obj = []\<rparr>,
      \<lparr>capacity = 0, obj = []\<rparr>], 2)"
    by (simp add: cluster_loop.simps example_iteration_1 example_iteration_2)
  moreover have "iterations 1 0 unlimited
     [\<lparr>capacity = 1, obj = [\<lparr>obj_id = 1, obj_x = Fin 1, obj_y = Fin 1\<rparr>]\<rparr>,
      \<lparr>capacity = 1, obj = [\<lparr>obj_id = 2, obj_x = Fin 2, obj_y = Fin 2\<rparr>]\<rparr>,
      \<lparr>capacity = 1, obj = [\<lparr>obj_id = 3, obj_x = Fin 3, obj_y = Fin 3\<rparr>]\<rparr>,
      \<lparr>capacity = 1, obj = [\<lparr>obj_id = 4, obj_x = Fin 10, obj_y = Fin 10\<rparr>]\<rparr>] 4 None None =
   Inr ([\<lparr>capacity = 1, obj = [\<lparr>obj_id = 1, obj_x = Fin 1, obj_y = Fin 1\<rparr>]\<rparr>,
      \<lparr>capacity = 11, obj = [\<lparr>obj_id = 2, obj_x = Fin 2, obj_y = Fin 2\<rparr>,
                              \<lparr>obj_id = 3, obj_x = Fin 3, obj_y = Fin 3\<rparr>]\<rparr>,
      \<lparr>capacity = 10, obj = [\<lparr>obj_id = 4, obj_x = Fin 10, obj_y = Fin 10\<rparr>]\<rparr>,
      \<lparr>capacity = 0, obj = []\<rparr>], 3, Some 1, Some 2)"
    by (simp add: example_iteration_1)
  ultimately show ?thesis
    by (simp add: example_find_1 example_find_2 example_distances)
qed

section \<open>The command line\<close>

text \<open>
  C10.  When the command line has a fourth argument that is neither \<^verbatim>\<open>--min\<close> nor
  \<^verbatim>\<open>--max\<close>, \<^verbatim>\<open>premium_case\<close> stays 0, the average method.  If moreover the count
  argument is read completely as a number \<open>N \<ge> 1\<close>, the file loads as a collection of
  \<open>sz \<ge> N\<close> non-empty clusters with finite coordinates and no allocation fails, then the
  program runs the loop with the average method and returns the exit status 0; no path
  of \<^verbatim>\<open>main\<close> looks at the fourth argument again.
\<close>

theorem unknown_method_runs_average:
  assumes "3 < length argv" and "argv ! 3 \<noteq> ''--min''" and "argv ! 3 \<noteq> ''--max''"
    and "strtol (argv ! 2) = (N, [])" and "1 \<le> N"
    and "load_clusters (argv ! 1) = (sz, carr)" and "N \<le> sz"
    and "valid_collection carr sz" and "\<forall>n. al n"
  shows "select_method argv = 0 \<and>
         (\<exists>carr'. cluster_loop 0 al carr sz N None None = Inr (carr', N) \<and>
                  main strtol load_clusters al argv = Inr (0, take (nat N) carr'))"
proof -
  have s: "select_method argv = 0" using assms(1,2,3) by (simp add: select_method_def)
  have "(0::int) = 0 \<or> (0::int) = 1 \<or> (0::int) = 2" by simp
  from cluster_loop_reaches_target[OF assms(9,8) this assms(5,7), of None None] obtain carr'
    where l: "cluster_loop 0 al carr sz N None None = Inr (carr', N)" by blast
  have "main strtol load_clusters al argv = Inr (0, take (nat N) carr')"
    using assms(1,4,5,6,7) s l by (simp add: main_def Let_def)
  then show ?thesis using s l by blast
qed

theorem unknown_method_runs_average_witness:
  "3 < length [''proj3'', ''objects.txt'', ''2'', ''--median''] \<and>
   [''proj3'', ''objects.txt'', ''2'', ''--median''] ! 3 \<noteq> ''--min'' \<and>
   [''proj3'', ''objects.txt'', ''2'', ''--median''] ! 3 \<noteq> ''--max'' \<and>
   (\<lambda>s. (2, [])) ([''proj3'', ''objects.txt'', ''2'', ''--median''] ! 2) = (2, []) \<and>
   (1::int) \<le> 2 \<and>
   (\<lambda>f. (3,
      [\<lparr>capacity = 1, obj = [\<lparr>obj_id = 1, obj_x = Fin 1, obj_y = Fin 1\<rparr>]\<rparr>,
       \<lparr>capacity = 1, obj = [\<lparr>obj_id = 2, obj_x = Fin 2, obj_y = Fin 2\<rparr>]\<rparr>,
       \<lparr>capacity = 1, obj = [\<lparr>obj_id = 3, obj_x = Fin 3, obj_y = Fin 3\<rparr>]\<rparr>]))
     ([''proj3'', ''objects.txt'', ''2'', ''--median''] ! 1) =
   (3,
      [\<lparr>capacity = 1, obj = [\<lparr>obj_id = 1, obj_x = Fin 1, obj_y = Fin 1\<rparr>]\<rparr>,
       \<lparr>capacity = 1, obj = [\<lparr>obj_id = 2, obj_x = Fin 2, obj_y = Fin 2\<rparr>]\<rparr>,
       \<lparr>capacity = 1, obj = [\<lparr>obj_id = 3, obj_x = Fin 3, obj_y = Fin 3\<rparr>]\<rparr>]) \<and>
   (2::int) \<le> 3 \<and>
   valid_collection
      [\<lparr>capacity = 1, obj = [\<lparr>obj_id = 1, obj_x = Fin 1, obj_y = Fin 1\<rparr>]\<rparr>,
       \<lparr>capacity = 1, obj = [\<lparr>obj_id = 2, obj_x = Fin 2, obj_y = Fin 2\<rparr>]\<rparr>,
       \<lparr>capacity = 1, obj = [\<lparr>obj_id = 3, obj_x = Fin 3, obj_y = Fin 3\<rparr>]\<rparr>] 3 \<and>
   (\<forall>n. unlimited n) \<and>
   select_method [''proj3'', ''objects.txt'', ''2'', ''--median''] = 0 \<and>
   (\<exists>out. main (\<lambda>s. (2, []))
      (\<lambda>f. (3,
        [\<lparr>capacity = 1, obj = [\<lparr>obj_id = 1, obj_x = Fin 1, obj_y = Fin 1\<rparr>]\<rparr>,
         \<lparr>capacity = 1, obj = [\<lparr>obj_id = 2, obj_x = Fin 2, obj_y = Fin 2\<rparr>]\<rparr>,
         \<lparr>capacity = 1, obj = [\<lparr>obj_id = 3, obj_x = Fin 3, obj_y = Fin 3\<rparr>]\<rparr>]))
      unlimited [''proj3'', ''objects.txt'', ''2'', ''--median''] = Inr (0, out))"
proof -
  let ?argv = "[''proj3'', ''objects.txt'', ''2'', ''--median'']"
  let ?C = "[\<lparr>capacity = 1, obj = [\<lparr>obj_id = 1, obj_x = Fin 1, obj_y = Fin 1\<rparr>]\<rparr>,
             \<lparr>capacity = 1, obj = [\<lparr>obj_id = 2, obj_x = Fin 2, obj_y = Fin 2\<rparr>]\<rparr>,
             \<lparr>capacity = 1, obj = [\<lparr>obj_id = 3, obj_x = Fin 3, obj_y = Fin 3\<rparr>]\<rparr>]"
  let ?strtol = "\<lambda>s::string. (2::int, [] :: string)"
  let ?load = "\<lambda>f::string. (3::int, ?C)"
  have h1: "3 < length ?argv" by simp
  have h2: "?argv ! 3 \<noteq> ''--min''" and h3: "?argv ! 3 \<noteq> ''--max''" by simp_all
  have h4: "?strtol (?argv ! 2) = (2, [])" by simp
  have h5: "(1::int) \<le> 2" by simp
  have h6: "?load (?argv ! 1) = (3, ?C)" by simp
  have h7: "(2::int) \<le> 3" by simp
  have h8: "valid_collection ?C 3"
    by (simp add: valid_collection_def valid_cluster_def finite_obj_def csize_def points_def
          INT_MAX_def)
  have h9: "\<forall>n. unlimited n" by (simp add: unlimited_def)
  from unknown_method_runs_average[OF h1 h2 h3 h4 h5 h6 h7 h8 h9] obtain carr' where
    "select_method ?argv = 0" "main ?strtol ?load unlimited ?argv = Inr (0, take (nat 2) carr')"
    by blast
  then have "select_method ?argv = 0 \<and> (\<exists>out. main ?strtol ?load unlimited ?argv = Inr (0, out))"
    by blast
  then show ?thesis using h8 h9 by simp
qed

text \<open>
  The example is a well-formed input: no assertion of \<^verbatim>\<open>cluster_distance\<close>,
  \<^verbatim>\<open>find_neighbours\<close> or \<^verbatim>\<open>remove_cluster\<close> fails on it, and no index leaves the array.
\<close>

theorem four_points_example_witness:
  "valid_collection
     [\<lparr>capacity = 1, obj = [\<lparr>obj_id = 1, obj_x = Fin 1, obj_y = Fin 1\<rparr>]\<rparr>,
      \<lparr>capacity = 1, obj = [\<lparr>obj_id = 2, obj_x = Fin 2, obj_y = Fin 2\<rparr>]\<rparr>,
      \<lparr>capacity = 1, obj = [\<lparr>obj_id = 3, obj_x = Fin 3, obj_y = Fin 3\<rparr>]\<rparr>,
      \<lparr>capacity = 1, obj = [\<lparr>obj_id = 4, obj_x = Fin 10, obj_y = Fin 10\<rparr>]\<rparr>] 4 \<and>
   (\<forall>n. unlimited n) \<and> (1::int) \<le> 2 \<and> (2::int) \<le> 4 \<and>
   cluster_loop 0 unlimited
     [\<lparr>capacity = 1, obj = [\<lparr>obj_id = 1, obj_x = Fin 1, obj_y = Fin 1\<rparr>]\<rparr>,
      \<lparr>capacity = 1, obj = [\<lparr>obj_id = 2, obj_x = Fin 2, obj_y = Fin 2\<rparr>]\<rparr>,
      \<lparr>capacity = 1, obj = [\<lparr>obj_id = 3, obj_x = Fin 3, obj_y = Fin 3\<rparr>]\<rparr>,
      \<lparr>capacity = 1, obj = [\<lparr>obj_id = 4, obj_x = Fin 10, obj_y = Fin 10\<rparr>]\<rparr>] 4 2 None None =
   Inr ([\<lparr>capacity = 11, obj = [\<lparr>obj_id = 1, obj_x = Fin 1, obj_y = Fin 1\<rparr>,
                              \<lparr>obj_id = 2, obj_x = Fin 2, obj_y = Fin 2\<rparr>,
                              \<lparr>obj_id = 3, obj_x = Fin 3, obj_y = Fin 3\<rparr>]\<rparr>,
      \<lparr>capacity = 10, obj = [\<lparr>obj_id = 4, obj_x = Fin 10, obj_y = Fin 10\<rparr>]\<rparr>,
      \<lparr>capacity = 0, obj = []\<rparr>,
      \<lparr>capacity = 0, obj = []\<rparr>], 2)"
  using four_points_example
  by (simp add: valid_collection_def valid_cluster_def finite_obj_def csize_def points_def
        INT_MAX_def unlimited_def)

section \<open>Numbers that rounding leaves unchanged\<close>

lemma round_even_of_int: "round_even (of_int z) = z"
  by (simp add: round_even_def)

lemma power_int_2_less_imp: "(2::rat) powi a < 2 powi b \<Longrightarrow> a < b"
proof (rule ccontr)
  assume l: "(2::rat) powi a < 2 powi b" and "\<not> a < b"
  then have "(2::rat) powi b \<le> 2 powi a" by (intro power_int_2_mono) simp
  then show False using l by simp
qed

text \<open>A number with at most 24 significant bits above \<open>2^-149\<close> is a binary32 number.\<close>

lemma rnd_exact:
  assumes "0 < m" and "m < 2 ^ 24" and "- 149 \<le> k"
  shows "rnd (of_int m * 2 powi k) = of_int m * 2 powi k"
proof -
  define q :: rat where "q = of_int m * 2 powi k"
  have q0: "0 < q" using assms(1) by (simp add: q_def)
  have "(of_int m :: rat) < of_int (2 ^ 24)" using assms(2) by (simp only: of_int_less_iff)
  then have "q < 2 ^ 24 * 2 powi k" unfolding q_def by (intro mult_strict_right_mono) simp_all
  also have "\<dots> = 2 powi (k + 24)" by (simp add: power_int_add)
  finally have "2 powi (ilog2 q) < (2::rat) powi (k + 24)"
    using ilog2_bounds[OF q0] by simp
  then have e: "ilog2 q < k + 24" by (rule power_int_2_less_imp)
  define t where "t = max (ilog2 q) (- 126) - 23"
  have t: "t \<le> k" using e assms(3) by (simp add: t_def)
  have qu: "quantum q = 2 powi t" by (simp add: quantum_def t_def)
  have "q / 2 powi t = of_int m * 2 powi (k - t)"
    by (simp add: q_def power_int_diff)
  also have "\<dots> = of_int (m * 2 ^ nat (k - t))" using t by (simp add: power_int_def)
  finally have "round_even (q / 2 powi t) = m * 2 ^ nat (k - t)"
    by (simp only: round_even_of_int)
  then have "rnd q = of_int (m * 2 ^ nat (k - t)) * 2 powi t"
    using q0 qu by (simp add: rnd_def)
  also have "\<dots> = of_int m * 2 powi (k - t) * 2 powi t" using t by (simp add: power_int_def)
  also have "\<dots> = q" by (simp add: q_def power_int_diff)
  finally show ?thesis by (simp add: q_def)
qed

lemma rnd_pos_min:
  assumes "0 < rnd q"
  shows "2 powi (- 149) \<le> rnd q"
proof -
  have q: "0 < q"
  proof (rule ccontr)
    assume "\<not> 0 < q"
    then have "0 \<le> - q" by simp
    then have "0 \<le> rnd (- q)" by (rule rnd_nonneg)
    then show False using assms by (simp add: rnd_minus)
  qed
  define z where "z = round_even (q / quantum q)"
  have r: "rnd q = of_int z * quantum q" using q by (simp add: rnd_def z_def)
  then have "0 < of_int z * quantum q" using assms by simp
  then have "0 < z" using quantum_pos[of q] by (simp add: zero_less_mult_iff)
  then have z1: "(1::rat) \<le> of_int z" by simp
  have "(2::rat) powi (- 149) \<le> 2 powi (max (ilog2 q) (- 126) - 23)"
    by (intro power_int_2_mono) simp
  then have "(2::rat) powi (- 149) \<le> quantum q" by (simp add: quantum_def)
  also have "\<dots> \<le> of_int z * quantum q"
    using z1 quantum_pos[of q] by (simp add: mult_le_cancel_right1)
  finally show ?thesis using r by simp
qed

text \<open>The rounded square root has a significand of 24 bits.\<close>

lemma sqrt_rnd_significand:
  assumes "0 < a"
  shows "\<exists>m. sqrt_rnd a = of_int m * 2 powi (ilog2 a div 2 - 23) \<and> 2 ^ 23 \<le> m \<and> m \<le> 2 ^ 24"
proof -
  define E where "E = ilog2 a"
  define k where "k = E div 2 - 23"
  define y where "y = a / 4 powi k"
  define n where "n = \<lfloor>y\<rfloor>"
  define m where "m = isqrt n"
  have b: "2 powi E \<le> a" "a < 2 powi (E + 1)" using ilog2_bounds[OF assms] by (simp_all add: E_def)
  have four: "(4::rat) powi k = 2 powi (2 * k)"
  proof -
    have "(4::rat) = 2 powi 2" by simp
    then show ?thesis by (simp only: power_int_mult[symmetric])
  qed
  have lo: "2 ^ 46 \<le> y"
  proof -
    have "(2::rat) powi 46 \<le> 2 powi (E - 2 * k)" by (intro power_int_2_mono) (simp add: k_def)
    also have "\<dots> = 2 powi E / 2 powi (2 * k)" by (simp add: power_int_diff)
    also have "\<dots> \<le> a / 2 powi (2 * k)" using b(1) by (intro divide_right_mono) simp_all
    finally show ?thesis by (simp add: y_def four)
  qed
  have hi: "y < 2 ^ 48"
  proof -
    have "a / 2 powi (2 * k) < 2 powi (E + 1) / 2 powi (2 * k)"
      using b(2) by (intro divide_strict_right_mono) simp_all
    also have "\<dots> = 2 powi (E + 1 - 2 * k)" by (simp add: power_int_diff)
    also have "\<dots> \<le> 2 powi 48" by (intro power_int_2_mono) (simp add: k_def)
    finally show ?thesis by (simp add: y_def four)
  qed
  have n: "2 ^ 46 \<le> n" "n < 2 ^ 48"
  proof -
    have "of_int (2 ^ 46) \<le> y" using lo by simp
    then show "2 ^ 46 \<le> n" unfolding n_def by (simp only: le_floor_iff)
    have "y < of_int (2 ^ 48)" using hi by simp
    then show "n < 2 ^ 48" unfolding n_def by (simp only: floor_less_iff)
  qed
  have "0 \<le> n" using n(1) by simp
  from isqrt_correct[OF this] have m: "0 \<le> m" "m * m \<le> n" "n < (m + 1) * (m + 1)"
    by (simp_all add: m_def)
  have m1: "2 ^ 23 \<le> m"
  proof (rule ccontr)
    assume "\<not> 2 ^ 23 \<le> m"
    then have "m + 1 \<le> 2 ^ 23" by simp
    then have "(m + 1) * (m + 1) \<le> 2 ^ 23 * 2 ^ 23" using m(1) by (intro mult_mono) simp_all
    then show False using m(3) n(1) by simp
  qed
  have m2: "m < 2 ^ 24"
  proof (rule ccontr)
    assume "\<not> m < 2 ^ 24"
    then have "2 ^ 24 \<le> m" by simp
    then have "2 ^ 24 * 2 ^ 24 \<le> m * m" by (intro mult_mono) simp_all
    then show False using m(2) n(2) by simp
  qed
  define M where "M = (if y < (of_int m + 1 / 2) * (of_int m + 1 / 2) then m
                       else if (of_int m + 1 / 2) * (of_int m + 1 / 2) < y then m + 1
                       else if even m then m else m + 1)"
  have "sqrt_rnd a = of_int M * 2 powi k"
    by (simp add: sqrt_rnd_def Let_def M_def m_def n_def y_def k_def E_def)
  moreover have "2 ^ 23 \<le> M" "M \<le> 2 ^ 24" using m1 m2 by (simp_all add: M_def)
  ultimately show ?thesis unfolding k_def E_def by blast
qed

lemma to_float_Fin_pos:
  assumes "to_float s = Fin a" and "0 < a"
  shows "2 powi (- 149) \<le> a \<and> a < 2 ^ 128"
proof -
  have a: "a = rnd s" "rnd s < 2 ^ 128"
    using assms(1) by (auto simp: to_float_def Let_def split: if_splits)
  then show ?thesis using rnd_pos_min[of s] assms(2) by simp
qed

lemma float_of_int_1: "float_of_int 1 = Fin 1"
  by code_simp

section \<open>Monotone rounding and its relative error\<close>

lemma round_even_mono: "x \<le> y \<Longrightarrow> round_even x \<le> round_even y"
proof -
  assume xy: "x \<le> y"
  then have f: "\<lfloor>x\<rfloor> \<le> \<lfloor>y\<rfloor>" by (rule floor_mono)
  show ?thesis
  proof (cases "\<lfloor>x\<rfloor> = \<lfloor>y\<rfloor>")
    case True
    then show ?thesis using xy by (auto simp: round_even_def Let_def)
  next
    case False
    then have "\<lfloor>x\<rfloor> + 1 \<le> \<lfloor>y\<rfloor>" using f by simp
    then show ?thesis using round_even_floor[of x] round_even_floor[of y] by simp
  qed
qed

lemma round_even_half:
  "of_int (round_even x) \<le> x + 1 / 2 \<and> x - 1 / 2 \<le> of_int (round_even x)"
proof -
  define f where "f = \<lfloor>x\<rfloor>"
  have "of_int f \<le> x" "x < of_int f + 1" unfolding f_def by linarith+
  then show ?thesis unfolding round_even_def Let_def f_def[symmetric] by auto
qed

lemma rnd_pos: "0 < q \<Longrightarrow> rnd q = of_int (round_even (q / quantum q)) * quantum q"
  by (simp add: rnd_def)

lemma ilog2_mono:
  assumes "0 < a" and "a \<le> b"
  shows "ilog2 a \<le> ilog2 b"
proof -
  have b0: "0 < b" using assms by simp
  have "2 powi (ilog2 a) \<le> a" using ilog2_bounds[OF assms(1)] by simp
  also have "a \<le> b" by (rule assms(2))
  also have "b < 2 powi (ilog2 b + 1)" using ilog2_bounds[OF b0] by simp
  finally have "ilog2 a < ilog2 b + 1" by (rule power_int_2_less_imp)
  then show ?thesis by simp
qed

lemma rnd_le_next_power:
  assumes "0 < a"
  shows "rnd a \<le> 2 powi (max (ilog2 a) (- 126) + 1)"
proof -
  define t where "t = max (ilog2 a) (- 126)"
  have qu: "quantum a = 2 powi (t - 23)" by (simp add: quantum_def t_def)
  have "a < 2 powi (ilog2 a + 1)" using ilog2_bounds[OF assms] by simp
  also have "\<dots> \<le> 2 powi (t + 1)" by (intro power_int_2_mono) (simp add: t_def)
  finally have "a / 2 powi (t - 23) \<le> 2 powi (t + 1) / 2 powi (t - 23)"
    by (intro divide_right_mono) simp_all
  also have "\<dots> = 2 powi (t + 1 - (t - 23))" by (subst power_int_diff) simp_all
  also have "\<dots> = of_int (2 ^ 24)" by simp
  finally have "round_even (a / 2 powi (t - 23)) \<le> 2 ^ 24" by (rule round_even_le)
  then have "(of_int (round_even (a / 2 powi (t - 23))) :: rat) \<le> of_int (2 ^ 24)"
    by (simp only: of_int_le_iff)
  then have "rnd a \<le> of_int (2 ^ 24) * 2 powi (t - 23)"
    unfolding rnd_pos[OF assms] qu by (intro mult_right_mono) simp_all
  also have "\<dots> = 2 powi (t + 1)" by (simp add: power_int_diff power_int_add)
  finally show ?thesis by (simp add: t_def)
qed

lemma rnd_mono_pos:
  assumes "0 < a" and "a \<le> b"
  shows "rnd a \<le> rnd b"
proof -
  have b0: "0 < b" using assms by simp
  define ta where "ta = max (ilog2 a) (- 126)"
  define tb where "tb = max (ilog2 b) (- 126)"
  have t: "ta \<le> tb" using ilog2_mono[OF assms] by (simp add: ta_def tb_def)
  show ?thesis
  proof (cases "ta = tb")
    case True
    then have q: "quantum a = quantum b" by (simp add: quantum_def ta_def tb_def)
    have "a / quantum b \<le> b / quantum b"
      using assms(2) quantum_pos[of b] by (intro divide_right_mono) simp_all
    then have "round_even (a / quantum b) \<le> round_even (b / quantum b)"
      by (rule round_even_mono)
    then have "(of_int (round_even (a / quantum b)) :: rat) \<le> of_int (round_even (b / quantum b))"
      by (simp only: of_int_le_iff)
    then show ?thesis
      unfolding rnd_pos[OF assms(1)] rnd_pos[OF b0] q
      using quantum_pos[of b] by (intro mult_right_mono) simp_all
  next
    case False
    then have lt: "ta + 1 \<le> tb" using t by simp
    then have e: "tb = ilog2 b" "- 126 \<le> ilog2 b" by (simp_all add: ta_def tb_def)
    have "rnd a \<le> 2 powi (ta + 1)" using rnd_le_next_power[OF assms(1)] by (simp add: ta_def)
    also have "\<dots> \<le> 2 powi tb" using lt by (rule power_int_2_mono)
    also have "\<dots> \<le> rnd b" using rnd_binade[OF b0 e(2)] e(1) by simp
    finally show ?thesis .
  qed
qed

lemma rnd_0: "rnd 0 = 0"
  by (simp add: rnd_def)

lemma rnd_mono:
  assumes "0 \<le> a" and "a \<le> b"
  shows "rnd a \<le> rnd b"
proof (cases "a = 0")
  case True
  then show ?thesis using assms rnd_nonneg[of b] by (simp add: rnd_0)
next
  case False
  then show ?thesis using assms by (intro rnd_mono_pos) simp_all
qed

text \<open>In the normal range, rounding changes a number by at most the fraction \<open>2^-24\<close>.\<close>

lemma rnd_relative_error:
  assumes "q = 0 \<or> 2 powi (- 126) \<le> q"
  shows "q * (1 - 1 / 2 ^ 24) \<le> rnd q \<and> rnd q \<le> q * (1 + 1 / 2 ^ 24)"
proof (cases "q = 0")
  case True
  then show ?thesis by (simp add: rnd_0)
next
  case False
  then have q: "2 powi (- 126) \<le> q" using assms by simp
  have q0: "0 < q" using q by (rule less_le_trans[rotated]) simp
  define e where "e = ilog2 q"
  have b: "2 powi e \<le> q" "q < 2 powi (e + 1)" using ilog2_bounds[OF q0] by (simp_all add: e_def)
  have "(2::rat) powi (- 126) < 2 powi (e + 1)" using q b(2) by simp
  then have "- 126 < e + 1" by (rule power_int_2_less_imp)
  then have qu: "quantum q = 2 powi (e - 23)" by (simp add: quantum_def e_def)
  define Q :: rat where "Q = 2 powi (e - 23)"
  have Q0: "0 < Q" by (simp add: Q_def)
  have "Q = 2 powi e / 2 ^ 23" by (simp add: Q_def power_int_diff)
  also have "\<dots> \<le> q / 2 ^ 23" using b(1) by (intro divide_right_mono) simp_all
  finally have Qq: "Q / 2 \<le> q / 2 ^ 24" by simp
  define z where "z = round_even (q / Q)"
  have r: "rnd q = of_int z * Q" using rnd_pos[OF q0] qu by (simp add: z_def Q_def)
  have h: "of_int z \<le> q / Q + 1 / 2" "q / Q - 1 / 2 \<le> of_int z"
    using round_even_half[of "q / Q"] by (simp_all add: z_def)
  have "of_int z * Q \<le> (q / Q + 1 / 2) * Q" using h(1) Q0 by (intro mult_right_mono) simp_all
  also have "\<dots> = q + Q / 2" using Q0 by (simp add: field_simps)
  finally have up: "rnd q \<le> q + q / 2 ^ 24" using r Qq by simp
  have "q - Q / 2 = (q / Q - 1 / 2) * Q" using Q0 by (simp add: field_simps)
  also have "\<dots> \<le> of_int z * Q" using h(2) Q0 by (intro mult_right_mono) simp_all
  finally have lo: "q - q / 2 ^ 24 \<le> rnd q" using r Qq by simp
  show ?thesis using up lo by (simp add: algebra_simps)
qed

section \<open>The values of a distance\<close>

lemma rnd_exact_24:
  assumes "0 < m" and "m \<le> 2 ^ 24" and "- 149 \<le> k"
  shows "rnd (of_int m * 2 powi k) = of_int m * 2 powi k"
proof (cases "m = 2 ^ 24")
  case True
  have "of_int m * (2::rat) powi k = of_int (2 ^ 23) * 2 powi (k + 1)"
    unfolding True by (simp add: power_int_add)
  moreover have "rnd (of_int (2 ^ 23) * 2 powi (k + 1)) = of_int (2 ^ 23) * 2 powi (k + 1)"
    using assms(3) by (intro rnd_exact) simp_all
  ultimately show ?thesis by simp
next
  case False
  then have "m < 2 ^ 24" using assms(2) by simp
  then show ?thesis using assms(1,3) by (intro rnd_exact)
qed

text \<open>
  A finite distance is zero or a number \<open>m 2\<^sup>k\<close> with a significand \<open>m\<close> of 24 bits between
  \<open>2\<^sup>-\<^sup>7\<^sup>5\<close> and \<open>2\<^sup>6\<^sup>4\<close>.
\<close>

lemma fsqrt_to_float_value:
  assumes "fsqrt (to_float s) = Fin d"
  shows "d = 0 \<or> (\<exists>m k. d = of_int m * 2 powi k \<and> 2 ^ 23 \<le> m \<and> m \<le> 2 ^ 24 \<and>
                        - 98 \<le> k \<and> k \<le> 40)"
proof (cases "to_float s")
  case (Fin a)
  show ?thesis
  proof (cases "0 < a")
    case True
    then have d: "d = sqrt_rnd a" using assms Fin by simp
    from to_float_Fin_pos[OF Fin True] have a: "2 powi (- 149) \<le> a" "a < 2 ^ 128" by simp_all
    have b: "2 powi (ilog2 a) \<le> a" "a < 2 powi (ilog2 a + 1)" using ilog2_bounds[OF True] by simp_all
    have "(2::rat) powi (- 149) < 2 powi (ilog2 a + 1)" using a(1) b(2) by simp
    then have e1: "- 149 < ilog2 a + 1" by (rule power_int_2_less_imp)
    have "(2::rat) powi (ilog2 a) < 2 powi 128" using a(2) b(1) by simp
    then have e2: "ilog2 a < 128" by (rule power_int_2_less_imp)
    from sqrt_rnd_significand[OF True] obtain m where
      m: "sqrt_rnd a = of_int m * 2 powi (ilog2 a div 2 - 23)" "2 ^ 23 \<le> m" "m \<le> 2 ^ 24"
      by blast
    have "- 98 \<le> ilog2 a div 2 - 23" "ilog2 a div 2 - 23 \<le> 40" using e1 e2 by simp_all
    then show ?thesis using m d by blast
  next
    case False
    then have "d = 0" using assms Fin by (simp split: if_splits)
    then show ?thesis by simp
  qed
qed (use assms in simp_all)

lemma obj_distance_value:
  assumes "obj_distance p q = Fin d"
  shows "d = 0 \<or> (\<exists>m k. d = of_int m * 2 powi k \<and> 2 ^ 23 \<le> m \<and> m \<le> 2 ^ 24 \<and>
                        - 98 \<le> k \<and> k \<le> 40)"
proof -
  define A where "A = fmul (fsub (obj_x p) (obj_x q)) (fsub (obj_x p) (obj_x q))"
  define B where "B = fmul (fsub (obj_y p) (obj_y q)) (fsub (obj_y p) (obj_y q))"
  have d': "fsqrt (fadd A B) = Fin d"
    using assms by (simp add: obj_distance_def Let_def A_def B_def)
  show ?thesis
  proof (cases A; cases B)
    fix x y assume "A = Fin x" "B = Fin y"
    then show ?thesis using d' fsqrt_to_float_value[of "x + y" d] by simp
  qed (use d' in simp_all)
qed

lemma distance_value_props:
  assumes "d = 0 \<or> (\<exists>m k. d = of_int m * 2 powi k \<and> 2 ^ 23 \<le> m \<and> m \<le> 2 ^ 24 \<and>
                        - 98 \<le> k \<and> k \<le> 40)"
  shows "0 \<le> d" and "d = 0 \<or> 2 powi (- 75) \<le> d" and "d \<le> 2 powi 64"
    and "rnd d = d" and "rnd (2 * d) = 2 * d"
proof -
  have "0 \<le> d \<and> (d = 0 \<or> 2 powi (- 75) \<le> d) \<and> d \<le> 2 powi 64 \<and> rnd d = d \<and>
        rnd (2 * d) = 2 * d"
  proof (cases "d = 0")
    case True
    then show ?thesis by (simp add: rnd_0)
  next
    case False
    then obtain m k where d: "d = of_int m * 2 powi k" and m: "2 ^ 23 \<le> m" "m \<le> 2 ^ 24"
      and k: "- 98 \<le> k" "k \<le> 40"
      using assms by blast
    have m0: "0 < m" using m(1) by simp
    have "of_int (2 ^ 23 :: int) \<le> (of_int m :: rat)" using m(1) by (simp only: of_int_le_iff)
    then have m1: "(2::rat) ^ 23 \<le> of_int m" by simp
    have "(of_int m :: rat) \<le> of_int (2 ^ 24 :: int)" using m(2) by (simp only: of_int_le_iff)
    then have m2: "of_int m \<le> (2::rat) ^ 24" by simp
    have "(2::rat) powi (- 75) = 2 ^ 23 * 2 powi (- 98)" by (simp add: power_int_minus)
    also have "\<dots> \<le> of_int m * 2 powi (- 98)" using m1 by (intro mult_right_mono) simp_all
    also have "\<dots> \<le> of_int m * 2 powi k"
      using k(1) m0 by (intro mult_left_mono power_int_2_mono) simp_all
    finally have lo: "2 powi (- 75) \<le> d" unfolding d .
    have "of_int m * (2::rat) powi k \<le> 2 ^ 24 * 2 powi k" using m2 by (intro mult_right_mono) simp_all
    also have "\<dots> \<le> 2 ^ 24 * 2 powi 40" using k(2) by (intro mult_left_mono power_int_2_mono) simp_all
    also have "\<dots> = 2 powi 64" by simp
    finally have hi: "d \<le> 2 powi 64" unfolding d .
    have e1: "rnd d = d" unfolding d using m0 m(2) k(1) by (intro rnd_exact_24) simp_all
    have "2 * d = of_int m * 2 powi (k + 1)" unfolding d by (simp add: power_int_add)
    moreover have "rnd (of_int m * 2 powi (k + 1)) = of_int m * 2 powi (k + 1)"
      using m0 m(2) k(1) by (intro rnd_exact_24) simp_all
    ultimately have e2: "rnd (2 * d) = 2 * d" by simp
    have "(0::rat) < 2 powi (- 75)" by simp
    then have "0 \<le> d" using lo by linarith
    then show ?thesis using lo hi e1 e2 by simp
  qed
  then show "0 \<le> d" and "d = 0 \<or> 2 powi (- 75) \<le> d" and "d \<le> 2 powi 64"
    and "rnd d = d" and "rnd (2 * d) = 2 * d"
    by simp_all
qed

section \<open>Sums of distances\<close>

lemma avg_fold_concat:
  "fold (\<lambda>p s. fold (\<lambda>q s. fadd s (obj_distance p q)) qs s) ps acc =
   fold (\<lambda>d s. fadd s d) (concat (map (\<lambda>p. map (obj_distance p) qs) ps)) acc"
  by (induction ps arbitrary: acc) (simp_all add: fold_map comp_def)

lemma length_pairs: "length (concat (map (\<lambda>p. map (f p) qs) ps)) = length ps * length qs"
  by (induction ps) simp_all

text \<open>
  A sum of distances does not overflow: once it has reached \<open>2\<^sup>9\<^sup>7\<close>, adding a distance
  no longer changes it.
\<close>

lemma rnd_stagnates: "rnd (2 ^ 97 + 2 ^ 64) = 2 ^ 97"
  by code_simp

lemma rnd_power_97: "rnd (2 ^ 97) = 2 ^ 97"
  by code_simp

lemma to_float_below:
  assumes "0 \<le> x" and "x \<le> 2 ^ 97"
  shows "to_float x = Fin (rnd x)" and "0 \<le> rnd x" and "rnd x \<le> 2 ^ 97"
proof -
  show 0: "0 \<le> rnd x" using assms(1) by (rule rnd_nonneg)
  have "rnd x \<le> rnd (2 ^ 97)" using assms by (rule rnd_mono)
  then show 1: "rnd x \<le> 2 ^ 97" by (simp only: rnd_power_97)
  have "rnd x < 2 ^ 128" using 1 by (rule order_le_less_trans) simp
  then show "to_float x = Fin (rnd x)" using 0 by (simp add: to_float_def Let_def)
qed

lemma fold_fadd_finite:
  assumes "\<forall>r\<in>set rs. 0 \<le> r \<and> r \<le> 2 powi 64"
  shows "0 \<le> s \<Longrightarrow> s \<le> 2 ^ 97 \<Longrightarrow>
     fold (\<lambda>d s. fadd s d) (map Fin rs) (Fin s) = Fin (fold (\<lambda>r s. rnd (s + r)) rs s) \<and>
     0 \<le> fold (\<lambda>r s. rnd (s + r)) rs s \<and> fold (\<lambda>r s. rnd (s + r)) rs s \<le> 2 ^ 97"
  using assms
proof (induction rs arbitrary: s)
  case Nil
  then show ?case by simp
next
  case (Cons r rs)
  have r: "0 \<le> r" "r \<le> 2 ^ 64" using Cons.prems(3) by simp_all
  have 0: "0 \<le> rnd (s + r)" using Cons.prems(1) r(1) by (intro rnd_nonneg) simp
  have "rnd (s + r) \<le> rnd (2 ^ 97 + 2 ^ 64)"
    using Cons.prems(1,2) r by (intro rnd_mono) simp_all
  then have 1: "rnd (s + r) \<le> 2 ^ 97" by (simp only: rnd_stagnates)
  have "rnd (s + r) < 2 ^ 128" using 1 by (rule order_le_less_trans) simp
  then have f: "fadd (Fin s) (Fin r) = Fin (rnd (s + r))"
    using 0 by (simp add: to_float_def Let_def)
  have "\<forall>r\<in>set rs. 0 \<le> r \<and> r \<le> 2 powi 64" using Cons.prems(3) by simp
  from Cons.IH[OF 0 1 this] show ?case using f by simp
qed

lemma fold_fadd_PInf:
  "\<forall>d\<in>set ds. fnonneg d \<Longrightarrow> fnonneg s \<Longrightarrow> s = PInf \<or> PInf \<in> set ds \<Longrightarrow>
   fold (\<lambda>d s. fadd s d) ds s = PInf"
proof (induction ds arbitrary: s)
  case Nil
  then show ?case by simp
next
  case (Cons d ds)
  have d: "fnonneg d" "fnonneg s" using Cons.prems by simp_all
  have n: "fnonneg (fadd s d)" using d by (intro fadd_fnonneg)
  have "fadd s d = PInf \<or> PInf \<in> set ds"
  proof (cases "s = PInf \<or> d = PInf")
    case True
    then have "fadd s d = PInf" using d by (cases s; cases d) simp_all
    then show ?thesis by simp
  next
    case False
    then show ?thesis using Cons.prems(3) by auto
  qed
  then show ?case using Cons.IH[OF _ n] Cons.prems(1) by simp
qed

section \<open>The rounding error of the average distance\<close>

lemma avg_step_lower:
  fixes k u lo r S S' :: rat
  assumes "0 \<le> lo" and "0 \<le> k" and "0 \<le> u" and "u \<le> 1"
    and "k * lo * (1 - k * u) \<le> S" and "lo \<le> r" and "(S + r) * (1 - u) \<le> S'"
  shows "(k + 1) * lo * (1 - (k + 1) * u) \<le> S'"
proof -
  have e: "(k * lo * (1 - k * u) + lo) * (1 - u) - (k + 1) * lo * (1 - (k + 1) * u) =
        lo * (k * u + (k * u) * (k * u))"
    by (simp add: algebra_simps)
  have "0 \<le> lo * (k * u + (k * u) * (k * u))" using assms(1,2,3) by simp
  then have "(k + 1) * lo * (1 - (k + 1) * u) \<le> (k * lo * (1 - k * u) + lo) * (1 - u)"
    using e by linarith
  also have "\<dots> \<le> (S + r) * (1 - u)"
    using assms(4,5,6) by (intro mult_right_mono) simp_all
  also have "\<dots> \<le> S'" by (rule assms(7))
  finally show ?thesis .
qed

lemma avg_step_upper:
  fixes k u hi r S S' :: rat
  assumes "0 \<le> u" and "0 \<le> k" and "(k + 1) * u \<le> 1"
    and "S * (1 - k * u) \<le> k * hi" and "0 \<le> r" and "r \<le> hi" and "0 \<le> S"
    and "S' \<le> (S + r) * (1 + u)"
  shows "S' * (1 - (k + 1) * u) \<le> (k + 1) * hi"
proof -
  have ku: "0 \<le> k * u" using assms(1,2) by simp
  have e: "(1 - k * u) - (1 + u) * (1 - (k + 1) * u) = (k + 1) * (u * u)"
    by (simp add: algebra_simps)
  have "0 \<le> (k + 1) * (u * u)" using assms(2) by simp
  then have f: "(1 + u) * (1 - (k + 1) * u) \<le> 1 - k * u" using e by linarith
  have "S' * (1 - (k + 1) * u) \<le> (S + r) * (1 + u) * (1 - (k + 1) * u)"
    using assms(3,8) by (intro mult_right_mono) simp_all
  also have "\<dots> = (S + r) * ((1 + u) * (1 - (k + 1) * u))" by simp
  also have "\<dots> \<le> (S + r) * (1 - k * u)"
    using f assms(5,7) by (intro mult_left_mono) simp_all
  also have "\<dots> = S * (1 - k * u) + r * (1 - k * u)" by (simp add: algebra_simps)
  also have "\<dots> \<le> k * hi + r * (1 - k * u)" using assms(4) by simp
  also have "r * (1 - k * u) \<le> r * 1" using assms(5) ku by (intro mult_left_mono) simp_all
  finally have "S' * (1 - (k + 1) * u) \<le> k * hi + r" by simp
  then show ?thesis using assms(6) by (simp add: algebra_simps)
qed

lemma rnd_ge_min_distance:
  assumes "2 powi (- 75) \<le> x"
  shows "2 powi (- 75) \<le> rnd x"
proof -
  have "rnd (of_int 1 * 2 powi (- 75)) = of_int 1 * 2 powi (- 75)"
    by (intro rnd_exact) simp_all
  then have "rnd (2 powi (- 75)) = 2 powi (- 75)" by simp
  moreover have "rnd (2 powi (- 75)) \<le> rnd x" using assms by (intro rnd_mono) simp_all
  ultimately show ?thesis by simp
qed

text \<open>
  The sum of \<open>k\<close> distances between \<open>lo\<close> and \<open>hi\<close>, each addition rounded: it is at least
  \<open>k lo (1 - k u)\<close> and at most \<open>k hi / (1 - k u)\<close>, where \<open>u = 2\<^sup>-\<^sup>2\<^sup>4\<close>.
\<close>

lemma fold_rnd_bounds:
  fixes lo hi :: rat
  assumes "0 \<le> lo"
  shows "\<forall>r\<in>set rs. (r = 0 \<or> 2 powi (- 75) \<le> r) \<and> lo \<le> r \<and> r \<le> hi \<Longrightarrow>
         of_nat (length rs) * (1 / 2 ^ 24) \<le> (1::rat) \<Longrightarrow>
         (fold (\<lambda>r s. rnd (s + r)) rs 0 = 0 \<or> 2 powi (- 75) \<le> fold (\<lambda>r s. rnd (s + r)) rs 0) \<and>
         of_nat (length rs) * lo * (1 - of_nat (length rs) * (1 / 2 ^ 24))
           \<le> fold (\<lambda>r s. rnd (s + r)) rs 0 \<and>
         fold (\<lambda>r s. rnd (s + r)) rs 0 * (1 - of_nat (length rs) * (1 / 2 ^ 24))
           \<le> of_nat (length rs) * hi"
proof (induction rs rule: rev_induct)
  case Nil
  then show ?case by simp
next
  case (snoc r rs)
  define k :: rat where "k = of_nat (length rs)"
  define u :: rat where "u = 1 / 2 ^ 24"
  define S where "S = fold (\<lambda>r s. rnd (s + r)) rs 0"
  define S' where "S' = rnd (S + r)"
  have k0: "0 \<le> k" by (simp add: k_def)
  have u0: "0 \<le> u" "u \<le> 1" by (simp_all add: u_def)
  have len: "(of_nat (length (rs @ [r])) :: rat) = k + 1" by (simp add: k_def)
  have k1: "(k + 1) * u \<le> 1" using snoc.prems(2) unfolding len u_def .
  have "k * u \<le> (k + 1) * u" using u0 by (simp add: algebra_simps)
  then have ku: "of_nat (length rs) * (1 / 2 ^ 24) \<le> (1::rat)"
    using k1 unfolding k_def u_def by linarith
  have rs: "\<forall>r\<in>set rs. (r = 0 \<or> 2 powi (- 75) \<le> r) \<and> lo \<le> r \<and> r \<le> hi"
    using snoc.prems(1) by simp
  have r: "r = 0 \<or> 2 powi (- 75) \<le> r" "lo \<le> r" "r \<le> hi" using snoc.prems(1) by simp_all
  have r0: "0 \<le> r" using r(2) assms by simp
  from snoc.IH[OF rs ku] have IH: "S = 0 \<or> 2 powi (- 75) \<le> S"
    "k * lo * (1 - k * u) \<le> S" "S * (1 - k * u) \<le> k * hi"
    by (simp_all add: S_def k_def u_def)
  have p75: "(0::rat) < 2 powi (- 75)" by simp
  have S0: "0 \<le> S" using IH(1) p75 by (elim disjE) simp_all
  have x: "S + r = 0 \<or> 2 powi (- 75) \<le> S + r"
  proof (cases "S = 0 \<and> r = 0")
    case True
    then show ?thesis by simp
  next
    case False
    then have "2 powi (- 75) \<le> S \<or> 2 powi (- 75) \<le> r" using IH(1) r(1) by blast
    then show ?thesis using S0 r0 by (elim disjE) simp_all
  qed
  have x126: "S + r = 0 \<or> 2 powi (- 126) \<le> S + r"
  proof -
    have "(2::rat) powi (- 126) \<le> 2 powi (- 75)" by (intro power_int_2_mono) simp
    then show ?thesis using x by (elim disjE) simp_all
  qed
  from rnd_relative_error[OF x126] have e: "(S + r) * (1 - u) \<le> S'" "S' \<le> (S + r) * (1 + u)"
    by (simp_all add: S'_def u_def)
  have 1: "S' = 0 \<or> 2 powi (- 75) \<le> S'"
  proof (cases "S + r = 0")
    case True
    then show ?thesis by (simp add: S'_def rnd_0)
  next
    case False
    then have "2 powi (- 75) \<le> S + r" using x by simp
    then show ?thesis unfolding S'_def by (intro disjI2 rnd_ge_min_distance)
  qed
  have 2: "(k + 1) * lo * (1 - (k + 1) * u) \<le> S'"
    by (rule avg_step_lower[OF assms k0 u0 IH(2) r(2) e(1)])
  have 3: "S' * (1 - (k + 1) * u) \<le> (k + 1) * hi"
    by (rule avg_step_upper[OF u0(1) k0 k1 IH(3) r0 r(3) S0 e(2)])
  have f: "fold (\<lambda>r s. rnd (s + r)) (rs @ [r]) 0 = S'" by (simp add: S'_def S_def)
  show ?case unfolding f len using 1 2 3 unfolding u_def by blast
qed

text \<open>The division by the number of pairs, when that number has at most 24 bits.\<close>

lemma average_rnd_bounds:
  fixes n lo hi S :: rat
  assumes "1 \<le> n" and "(n + 1) * (1 / 2 ^ 24) \<le> 1" and "0 \<le> lo"
    and "S = 0 \<or> 2 powi (- 75) \<le> S"
    and "n * lo * (1 - n * (1 / 2 ^ 24)) \<le> S" and "S * (1 - n * (1 / 2 ^ 24)) \<le> n * hi"
  shows "lo * (1 - (n + 1) * (1 / 2 ^ 24)) \<le> rnd (S / n)"
    and "rnd (S / n) * (1 - (n + 1) * (1 / 2 ^ 24)) \<le> hi"
proof -
  define u :: rat where "u = 1 / 2 ^ 24"
  define y where "y = S / n"
  have u0: "0 \<le> u" "u \<le> 1" by (simp_all add: u_def)
  have n0: "0 < n" using assms(1) by simp
  have n1: "(n + 1) * u \<le> 1" using assms(2) by (simp add: u_def)
  have n24: "n \<le> 2 ^ 24" using assms(2) by simp
  have p75: "(0::rat) < 2 powi (- 75)" by simp
  have S0: "0 \<le> S" using assms(4) p75 by (elim disjE) simp_all
  have y0: "0 \<le> y" using S0 n0 by (simp add: y_def)
  have y126: "y = 0 \<or> 2 powi (- 126) \<le> y"
  proof (cases "S = 0")
    case True
    then show ?thesis by (simp add: y_def)
  next
    case False
    then have S: "2 powi (- 75) \<le> S" using assms(4) by simp
    have "(2::rat) powi (- 126) \<le> 2 powi (- 99)" by (intro power_int_2_mono) simp
    also have "\<dots> = 2 powi (- 75) / 2 ^ 24" by (simp add: power_int_minus)
    also have "\<dots> \<le> S / n" using S n24 n0 by (intro frac_le) simp_all
    finally show ?thesis by (simp add: y_def)
  qed
  from rnd_relative_error[OF y126] have e: "y * (1 - u) \<le> rnd y" "rnd y \<le> y * (1 + u)"
    by (simp_all add: u_def)
  have l1: "lo * (1 - n * u) \<le> y"
  proof -
    have "lo * (1 - n * u) = n * lo * (1 - n * u) / n" using n0 by simp
    also have "\<dots> \<le> S / n" using assms(5) n0 unfolding u_def by (intro divide_right_mono) simp_all
    finally show ?thesis by (simp add: y_def)
  qed
  have "lo * (1 - n * u) * (1 - u) - lo * (1 - (n + 1) * u) = lo * (n * (u * u))"
    by (simp add: algebra_simps)
  moreover have "0 \<le> lo * (n * (u * u))" using assms(3) n0 by simp
  ultimately have "lo * (1 - (n + 1) * u) \<le> lo * (1 - n * u) * (1 - u)" by linarith
  also have "\<dots> \<le> y * (1 - u)" using l1 u0 by (intro mult_right_mono) simp_all
  also have "\<dots> \<le> rnd y" by (rule e(1))
  finally show "lo * (1 - (n + 1) * (1 / 2 ^ 24)) \<le> rnd (S / n)" by (simp add: u_def y_def)
  have h1: "y * (1 - n * u) \<le> hi"
  proof -
    have "y * (1 - n * u) = S * (1 - n * u) / n" by (simp add: y_def)
    also have "\<dots> \<le> n * hi / n" using assms(6) n0 unfolding u_def by (intro divide_right_mono) simp_all
    finally show ?thesis using n0 by simp
  qed
  have "(1 - n * u) - (1 + u) * (1 - (n + 1) * u) = (n + 1) * (u * u)"
    by (simp add: algebra_simps)
  moreover have "0 \<le> (n + 1) * (u * u)" using n0 by simp
  ultimately have f: "(1 + u) * (1 - (n + 1) * u) \<le> 1 - n * u" by linarith
  have "rnd y * (1 - (n + 1) * u) \<le> y * (1 + u) * (1 - (n + 1) * u)"
    using e(2) n1 by (intro mult_right_mono) simp_all
  also have "\<dots> = y * ((1 + u) * (1 - (n + 1) * u))" by simp
  also have "\<dots> \<le> y * (1 - n * u)" using f y0 by (intro mult_left_mono) simp_all
  also have "\<dots> \<le> hi" by (rule h1)
  finally show "rnd (S / n) * (1 - (n + 1) * (1 / 2 ^ 24)) \<le> hi" by (simp add: u_def y_def)
qed

text \<open>Two distances: their sum and its half are rounded between the bounds.\<close>

lemma average_two_exact:
  assumes "0 \<le> lo" and "lo \<le> d1" and "lo \<le> d2" and "d1 \<le> hi" and "d2 \<le> hi"
    and "rnd lo = lo" and "rnd (2 * lo) = 2 * lo" and "rnd hi = hi" and "rnd (2 * hi) = 2 * hi"
  shows "lo \<le> rnd (rnd (d1 + d2) / 2)" and "rnd (rnd (d1 + d2) / 2) \<le> hi"
proof -
  have "rnd (2 * lo) \<le> rnd (d1 + d2)" using assms(1,2,3) by (intro rnd_mono) simp_all
  then have a: "lo \<le> rnd (d1 + d2) / 2" using assms(7) by simp
  have "rnd lo \<le> rnd (rnd (d1 + d2) / 2)" using assms(1) a by (intro rnd_mono)
  then show "lo \<le> rnd (rnd (d1 + d2) / 2)" using assms(6) by simp
  have "rnd (d1 + d2) \<le> rnd (2 * hi)" using assms(1,2,3,4,5) by (intro rnd_mono) simp_all
  then have b: "rnd (d1 + d2) / 2 \<le> hi" using assms(9) by simp
  have "0 \<le> rnd (d1 + d2)" using assms(1,2,3) by (intro rnd_nonneg) simp
  then have "rnd (rnd (d1 + d2) / 2) \<le> rnd hi" using b by (intro rnd_mono) simp_all
  then show "rnd (rnd (d1 + d2) / 2) \<le> hi" using assms(8) by simp
qed

lemma float_of_int_exact:
  assumes "0 < n" and "n < 2 ^ 24"
  shows "float_of_int n = Fin (of_int n)"
proof -
  have "rnd (of_int n * 2 powi 0) = of_int n * 2 powi 0"
    using assms by (intro rnd_exact) simp_all
  then have r: "rnd (of_int n) = of_int n" by simp
  have "(of_int n :: rat) < of_int (2 ^ 24)" using assms(2) by (simp only: of_int_less_iff)
  then have "(of_int n :: rat) < 2 ^ 128" by simp
  moreover have "(0::rat) \<le> of_int n" using assms(1) by simp
  ultimately show ?thesis using r by (simp add: float_of_int_def to_float_def Let_def)
qed

lemma float_of_int_ge_1:
  assumes "1 \<le> n" and "n \<le> INT_MAX"
  shows "\<exists>r. float_of_int n = Fin r \<and> 1 \<le> r"
proof -
  from float_of_int_pos[OF assms] obtain r where r: "float_of_int n = Fin r" "0 < r" by blast
  then have "r = rnd (of_int n)"
    by (auto simp: float_of_int_def to_float_def Let_def split: if_splits)
  moreover have "rnd (of_int 1 * 2 powi 0) = of_int 1 * 2 powi 0" by (intro rnd_exact) simp_all
  moreover have "rnd 1 \<le> rnd (of_int n)" using assms(1) by (intro rnd_mono) simp_all
  ultimately have "1 \<le> r" by simp
  then show ?thesis using r(1) by blast
qed

text \<open>
  The average of a list of distances, computed as the program does, against a least and
  a greatest element of the list.
\<close>

lemma average_of_distances:
  assumes D: "\<forall>d\<in>set ds. fnonneg d \<and> (\<exists>p q. d = obj_distance p q)"
    and lo: "lo \<in> set ds" and hi: "hi \<in> set ds"
    and b: "\<forall>d\<in>set ds. fge d lo \<and> fge hi d"
    and n: "int (length ds) \<le> INT_MAX"
  shows "fle_within ((of_nat (length ds) + 1) / 2 ^ 24) lo
           (fdiv (fold (\<lambda>d s. fadd s d) ds (Fin 0)) (float_of_int (int (length ds)))) \<and>
         fle_within ((of_nat (length ds) + 1) / 2 ^ 24)
           (fdiv (fold (\<lambda>d s. fadd s d) ds (Fin 0)) (float_of_int (int (length ds)))) hi \<and>
         (length ds \<le> 2 \<longrightarrow>
            fge (fdiv (fold (\<lambda>d s. fadd s d) ds (Fin 0)) (float_of_int (int (length ds)))) lo \<and>
            fge hi (fdiv (fold (\<lambda>d s. fadd s d) ds (Fin 0)) (float_of_int (int (length ds)))))"
proof -
  define e :: rat where "e = (of_nat (length ds) + 1) / 2 ^ 24"
  define av where
    "av = fdiv (fold (\<lambda>d s. fadd s d) ds (Fin 0)) (float_of_int (int (length ds)))"
  have ne: "ds \<noteq> []" using lo by auto
  then have n1: "1 \<le> int (length ds)" by (cases ds) simp_all
  from float_of_int_ge_1[OF n1 n] obtain N where
    N: "float_of_int (int (length ds)) = Fin N" "1 \<le> N"
    by blast
  have flo: "fnonneg lo" and fhi: "fnonneg hi" using D lo hi by simp_all
  have "fle_within e lo av \<and> fle_within e av hi \<and> (length ds \<le> 2 \<longrightarrow> fge av lo \<and> fge hi av)"
  proof (cases hi)
    case PInf
    have "fold (\<lambda>d s. fadd s d) ds (Fin 0) = PInf"
      using D hi PInf by (intro fold_fadd_PInf) simp_all
    then have av: "av = PInf" using N by (simp add: av_def)
    show ?thesis using flo unfolding av PInf by (cases lo) simp_all
  next
    case (Fin h)
    define val where "val d = (case d of Fin r \<Rightarrow> r | _ \<Rightarrow> 0)" for d
    define rs where "rs = map val ds"
    have fin: "\<exists>r. d = Fin r \<and> 0 \<le> r \<and> r \<le> h" if "d \<in> set ds" for d
    proof -
      have "fnonneg d" "fge (Fin h) d" using D b that Fin by simp_all
      then show ?thesis by (cases d) simp_all
    qed
    have ds: "ds = map Fin rs"
    proof -
      have "map Fin (map val ds) = map (\<lambda>d. d) ds"
        unfolding map_map
      proof (rule map_cong[OF refl])
        fix d assume "d \<in> set ds"
        from fin[OF this] obtain r where "d = Fin r" by blast
        then show "(Fin \<circ> val) d = d" by (simp add: val_def)
      qed
      then show ?thesis by (simp add: rs_def)
    qed
    have len: "length rs = length ds" by (simp add: rs_def)
    have mem: "Fin r \<in> set ds" if "r \<in> set rs" for r
      using that by (subst ds) simp
    have props: "0 \<le> r \<and> (r = 0 \<or> 2 powi (- 75) \<le> r) \<and> r \<le> 2 powi 64 \<and> rnd r = r \<and>
                 rnd (2 * r) = 2 * r \<and> r \<le> h"
      if "r \<in> set rs" for r
    proof -
      have m: "Fin r \<in> set ds" by (rule mem[OF that])
      then obtain p q where "Fin r = obj_distance p q" using D by blast
      then have v: "r = 0 \<or> (\<exists>m k. r = of_int m * 2 powi k \<and> 2 ^ 23 \<le> m \<and> m \<le> 2 ^ 24 \<and>
                        - 98 \<le> k \<and> k \<le> 40)"
        using obj_distance_value[of p q r] by simp
      have "r \<le> h" using fin[OF m] by simp
      then show ?thesis using distance_value_props[OF v] by simp
    qed
    from fin[OF lo] obtain l where l: "lo = Fin l" "0 \<le> l" by blast
    have lrs: "l \<in> set rs"
    proof -
      have "val lo \<in> set rs" unfolding rs_def using lo by simp
      then show ?thesis by (simp add: l val_def)
    qed
    have hrs: "h \<in> set rs"
    proof -
      have "val hi \<in> set rs" unfolding rs_def using hi by simp
      then show ?thesis by (simp add: Fin val_def)
    qed
    have lle: "l \<le> r" if "r \<in> set rs" for r
    proof -
      have "fge (Fin r) lo" using b mem[OF that] by blast
      then show ?thesis by (simp add: l)
    qed
    define S where "S = fold (\<lambda>r s. rnd (s + r)) rs 0"
    have r64: "\<forall>r\<in>set rs. 0 \<le> r \<and> r \<le> 2 powi 64" using props by blast
    from fold_fadd_finite[OF r64, of 0] have S: "fold (\<lambda>d s. fadd s d) ds (Fin 0) = Fin S"
      "0 \<le> S" "S \<le> 2 ^ 97"
      by (simp_all add: S_def ds)
    have N0: "0 < N" using N(2) by simp
    have y: "0 \<le> S / N" "S / N \<le> 2 ^ 97"
    proof -
      show "0 \<le> S / N" using S(2) N0 by simp
      have "S / N \<le> S / 1" using S(2) N(2) by (intro divide_left_mono) simp_all
      then show "S / N \<le> 2 ^ 97" using S(3) by simp
    qed
    define A where "A = rnd (S / N)"
    have av: "av = Fin A" and A0: "0 \<le> A"
      using to_float_below[OF y] N N0 S(1) by (simp_all add: av_def A_def)
    have h0: "0 \<le> h" using props[OF hrs] by simp
    have 1: "l * (1 - e) \<le> A \<and> A * (1 - e) \<le> h"
    proof (cases "length ds + 1 \<le> 2 ^ 24")
      case True
      define k :: rat where "k = of_nat (length ds)"
      have "int (length ds) < 2 ^ 24" using True by (simp flip: of_nat_less_iff)
      then have "float_of_int (int (length ds)) = Fin (of_int (int (length ds)))"
        using ne by (intro float_of_int_exact) simp_all
      then have Nk: "N = k" using N(1) by (simp add: k_def)
      have "(of_nat (length ds + 1) :: rat) \<le> of_nat (2 ^ 24)" using True by (simp only: of_nat_le_iff)
      then have k24: "k + 1 \<le> 2 ^ 24" by (simp add: k_def)
      then have k1: "(k + 1) * (1 / 2 ^ 24) \<le> 1" by simp
      have k0: "1 \<le> k" using n1 by (simp add: k_def flip: of_nat_le_iff) 
      have "k * (1 / 2 ^ 24) \<le> (k + 1) * (1 / 2 ^ 24)" by simp
      then have ku: "of_nat (length rs) * (1 / 2 ^ 24) \<le> (1::rat)"
        using k1 unfolding len k_def by linarith
      have rr: "\<forall>r\<in>set rs. (r = 0 \<or> 2 powi (- 75) \<le> r) \<and> l \<le> r \<and> r \<le> h"
        using props lle by blast
      from fold_rnd_bounds[OF l(2) rr ku] have B: "S = 0 \<or> 2 powi (- 75) \<le> S"
        "k * l * (1 - k * (1 / 2 ^ 24)) \<le> S" "S * (1 - k * (1 / 2 ^ 24)) \<le> k * h"
        by (simp_all add: S_def len k_def)
      from average_rnd_bounds[OF k0 k1 l(2) B] have
        "l * (1 - (k + 1) * (1 / 2 ^ 24)) \<le> rnd (S / k)"
        "rnd (S / k) * (1 - (k + 1) * (1 / 2 ^ 24)) \<le> h"
        by simp_all
      moreover have "(k + 1) * (1 / 2 ^ 24) = e" by (simp add: e_def k_def)
      ultimately show ?thesis by (simp add: A_def Nk)
    next
      case False
      then have "2 ^ 24 \<le> length ds + 1" by simp
      then have "(of_nat (2 ^ 24) :: rat) \<le> of_nat (length ds + 1)" by (simp only: of_nat_le_iff)
      then have "1 \<le> e" by (simp add: e_def)
      then have "1 - e \<le> 0" by simp
      then have "l * (1 - e) \<le> 0" "A * (1 - e) \<le> 0"
        using l(2) A0 by (simp_all add: mult_nonneg_nonpos)
      then show ?thesis using A0 h0 by simp
    qed
    have 2: "l \<le> A \<and> A \<le> h" if two: "length ds \<le> 2"
    proof (cases "length ds = 1")
      case True
      then obtain r where r: "rs = [r]" using len by (cases rs) simp_all
      have "rnd r = r" using props[of r] r by simp
      then have "S = r" by (simp add: S_def r)
      moreover have "N = 1" using N(1) True by (simp add: float_of_int_1)
      ultimately have "A = r" using \<open>rnd r = r\<close> by (simp add: A_def)
      moreover have "l = r" "h = r" using lrs hrs r by simp_all
      ultimately show ?thesis by simp
    next
      case False
      moreover have "length ds \<noteq> 0" using ne by simp
      ultimately have "length rs = 2" using two len by linarith
      then obtain r1 r2 where r: "rs = [r1, r2]"
        by (cases rs; cases "tl rs") auto
      have "rnd r1 = r1" using props[of r1] r by simp
      then have Se: "S = rnd (r1 + r2)" by (simp add: S_def r)
      have "float_of_int 2 = Fin (of_int 2)" by (intro float_of_int_exact) simp_all
      moreover have "int (length ds) = 2" using len r by simp
      ultimately have "N = 2" using N(1) by simp
      then have Ae: "A = rnd (rnd (r1 + r2) / 2)" by (simp add: A_def Se)
      have p: "l \<le> r1" "l \<le> r2" "r1 \<le> h" "r2 \<le> h"
        using lle[of r1] lle[of r2] props[of r1] props[of r2] r by simp_all
      have q: "rnd l = l" "rnd (2 * l) = 2 * l" "rnd h = h" "rnd (2 * h) = 2 * h"
        using props[OF lrs] props[OF hrs] by simp_all
      show ?thesis unfolding Ae using average_two_exact[OF l(2) p q] by simp
    qed
    show ?thesis using 1 2 unfolding av l Fin by simp
  qed (use fhi in simp_all)
  then show ?thesis unfolding e_def av_def .
qed

text \<open>
  C6 (as amended).  For two non-empty clusters with finite coordinates, the nearest
  neighbour distance \<open>lo\<close> and the furthest neighbour distance \<open>hi\<close> are both returned and
  \<open>lo \<le> hi\<close>.  When the number \<open>n\<close> of pairs of objects is at most \<^verbatim>\<open>INT_MAX\<close>, the average
  distance \<open>av\<close> is returned and lies between them up to the rounding of the \<open>n\<close> additions
  and of the division: \<open>lo (1 - (n + 1) 2\<^sup>-\<^sup>2\<^sup>4) \<le> av\<close> and \<open>av (1 - (n + 1) 2\<^sup>-\<^sup>2\<^sup>4) \<le> hi\<close>.
  With at most two pairs the bounds are exact, \<open>lo \<le> av \<le> hi\<close>, and with a single pair
  the three distances are equal.
\<close>

theorem min_distance_le_max_distance:
  assumes "obj (a::cluster_t) \<noteq> []" and "obj (b::cluster_t) \<noteq> []"
    and "list_all finite_obj (obj a)" and "list_all finite_obj (obj b)"
  shows "\<exists>lo hi. cluster_distance 1 a b = Inr lo \<and> cluster_distance 2 a b = Inr hi \<and>
                 fge hi lo \<and>
                 (csize a * csize b \<le> INT_MAX \<longrightarrow>
                    (\<exists>av. cluster_distance 0 a b = Inr av \<and>
                          fle_within (of_int (csize a * csize b + 1) / 2 ^ 24) lo av \<and>
                          fle_within (of_int (csize a * csize b + 1) / 2 ^ 24) av hi \<and>
                          (csize a * csize b \<le> 2 \<longrightarrow> fge av lo \<and> fge hi av) \<and>
                          (csize a * csize b = 1 \<longrightarrow> av = lo \<and> av = hi)))"
proof -
  note A = obj_nonempty_distances[OF assms]
  define d0 where "d0 = obj_distance (obj a ! 0) (obj b ! 0)"
  define lo where "lo = min_rows (obj a) (obj b) d0"
  define hi where "hi = max_rows (obj a) (obj b) d0"
  define ds where "ds = concat (map (\<lambda>p. map (obj_distance p) (obj b)) (obj a))"
  have A2: "fnonneg d0" using A(2) by (simp add: d0_def)
  have mem: "d \<in> set ds \<longleftrightarrow> (\<exists>p\<in>set (obj a). \<exists>q\<in>set (obj b). d = obj_distance p q)" for d
    by (auto simp: ds_def)
  have d0: "d0 \<in> set ds" unfolding mem d0_def using A(3,4) by blast
  have L: "lo = d0 \<or> (\<exists>p\<in>set (obj a). \<exists>q\<in>set (obj b). lo = obj_distance p q)"
    "fge d0 lo" "\<forall>p\<in>set (obj a). \<forall>q\<in>set (obj b). fge (obj_distance p q) lo"
    using min_rows_spec[OF A2 A(1)] by (simp_all add: lo_def)
  have H: "hi = d0 \<or> (\<exists>p\<in>set (obj a). \<exists>q\<in>set (obj b). hi = obj_distance p q)"
    "fge hi d0" "\<forall>p\<in>set (obj a). \<forall>q\<in>set (obj b). fge hi (obj_distance p q)"
    using max_rows_spec[OF A2 A(1)] by (simp_all add: hi_def)
  have los: "lo \<in> set ds" using L(1) d0 mem by blast
  have his: "hi \<in> set ds" using H(1) d0 mem by blast
  have D: "\<forall>d\<in>set ds. fnonneg d \<and> (\<exists>p q. d = obj_distance p q)"
  proof
    fix d assume "d \<in> set ds"
    then obtain p q where "p \<in> set (obj a)" "q \<in> set (obj b)" "d = obj_distance p q"
      unfolding mem by blast
    then show "fnonneg d \<and> (\<exists>p q. d = obj_distance p q)" using A(1) by blast
  qed
  have B: "\<forall>d\<in>set ds. fge d lo \<and> fge hi d"
  proof
    fix d assume "d \<in> set ds"
    then obtain p q where "p \<in> set (obj a)" "q \<in> set (obj b)" "d = obj_distance p q"
      unfolding mem by blast
    then show "fge d lo \<and> fge hi d" using L(3) H(3) by blast
  qed
  have 1: "fge hi lo" using H(2) L(2) by (rule fge_trans)
  have 2: "cluster_distance 1 a b = Inr lo" "cluster_distance 2 a b = Inr hi"
    using A(5,6) by (simp_all add: cluster_distance_def lo_def hi_def d0_def)
  have len: "int (length ds) = csize a * csize b"
    by (simp add: ds_def length_pairs csize_def)
  have 3: "\<exists>av. cluster_distance 0 a b = Inr av \<and>
                fle_within (of_int (csize a * csize b + 1) / 2 ^ 24) lo av \<and>
                fle_within (of_int (csize a * csize b + 1) / 2 ^ 24) av hi \<and>
                (csize a * csize b \<le> 2 \<longrightarrow> fge av lo \<and> fge hi av) \<and>
                (csize a * csize b = 1 \<longrightarrow> av = lo \<and> av = hi)"
    if n: "csize a * csize b \<le> INT_MAX"
  proof -
    define av where
      "av = fdiv (fold (\<lambda>d s. fadd s d) ds (Fin 0)) (float_of_int (int (length ds)))"
    have n': "int (length ds) \<le> INT_MAX" using n len by simp
    have b: "0 + int (length (obj a)) * int (length (obj b)) \<le> INT_MAX"
      using n by (simp add: csize_def)
    have "avg_rows (obj a) (obj b) (Fin 0, 0) =
          Inr (fold (\<lambda>d s. fadd s d) ds (Fin 0), int (length ds))"
      using avg_rows_ok[OF b, of "Fin 0"] len
      by (simp add: avg_fold_concat ds_def csize_def)
    then have c: "cluster_distance 0 a b = Inr av"
      using A(5,6) by (simp add: cluster_distance_def av_def)
    have e: "(of_int (csize a * csize b + 1) :: rat) = of_nat (length ds) + 1"
      unfolding len[symmetric] by simp
    from average_of_distances[OF D los his B n'] have
      w: "fle_within ((of_nat (length ds) + 1) / 2 ^ 24) lo av"
         "fle_within ((of_nat (length ds) + 1) / 2 ^ 24) av hi"
      and t: "length ds \<le> 2 \<longrightarrow> fge av lo \<and> fge hi av"
      by (simp_all add: av_def)
    have t': "csize a * csize b \<le> 2 \<longrightarrow> fge av lo \<and> fge hi av"
      using t unfolding len[symmetric] by simp
    have o: "av = lo \<and> av = hi" if "csize a * csize b = 1"
    proof -
      have one: "length ds = 1" using that len by simp
      then obtain d where "ds = [d]" by (cases ds) simp_all
      then have "lo = hi" using los his by simp
      moreover have "fge av lo \<and> fge hi av" using t one by simp
      ultimately show ?thesis using fge_antisym[of av lo] by simp
    qed
    show ?thesis using c w t' o unfolding e by blast
  qed
  show ?thesis using 1 2 3 by blast
qed

theorem min_distance_le_max_distance_witness:
  "(obj \<lparr>capacity = 1, obj = [\<lparr>obj_id = 1, obj_x = Fin 3, obj_y = Fin 3\<rparr>]\<rparr> \<noteq> [] \<and>
    obj \<lparr>capacity = 1, obj = [\<lparr>obj_id = 2, obj_x = Fin 0, obj_y = Fin 2\<rparr>]\<rparr> \<noteq> [] \<and>
    list_all finite_obj (obj \<lparr>capacity = 1, obj = [\<lparr>obj_id = 1, obj_x = Fin 3, obj_y = Fin 3\<rparr>]\<rparr>) \<and>
    list_all finite_obj (obj \<lparr>capacity = 1, obj = [\<lparr>obj_id = 2, obj_x = Fin 0, obj_y = Fin 2\<rparr>]\<rparr>) \<and>
    csize \<lparr>capacity = 1, obj = [\<lparr>obj_id = 1, obj_x = Fin 3, obj_y = Fin 3\<rparr>]\<rparr> *
    csize \<lparr>capacity = 1, obj = [\<lparr>obj_id = 2, obj_x = Fin 0, obj_y = Fin 2\<rparr>]\<rparr> = 1 \<and>
    (\<exists>lo av hi.
        cluster_distance 1 \<lparr>capacity = 1, obj = [\<lparr>obj_id = 1, obj_x = Fin 3, obj_y = Fin 3\<rparr>]\<rparr>
           \<lparr>capacity = 1, obj = [\<lparr>obj_id = 2, obj_x = Fin 0, obj_y = Fin 2\<rparr>]\<rparr> = Inr lo \<and>
        cluster_distance 0 \<lparr>capacity = 1, obj = [\<lparr>obj_id = 1, obj_x = Fin 3, obj_y = Fin 3\<rparr>]\<rparr>
           \<lparr>capacity = 1, obj = [\<lparr>obj_id = 2, obj_x = Fin 0, obj_y = Fin 2\<rparr>]\<rparr> = Inr av \<and>
        cluster_distance 2 \<lparr>capacity = 1, obj = [\<lparr>obj_id = 1, obj_x = Fin 3, obj_y = Fin 3\<rparr>]\<rparr>
           \<lparr>capacity = 1, obj = [\<lparr>obj_id = 2, obj_x = Fin 0, obj_y = Fin 2\<rparr>]\<rparr> = Inr hi \<and>
        fge hi lo \<and> fle_within (2 / 2 ^ 24) lo av \<and> fle_within (2 / 2 ^ 24) av hi \<and>
        fge av lo \<and> fge hi av \<and> av = lo \<and> av = hi)) \<and>
   (obj \<lparr>capacity = 1, obj = [\<lparr>obj_id = 1, obj_x = Fin 3, obj_y = Fin 3\<rparr>]\<rparr> \<noteq> [] \<and>
    obj \<lparr>capacity = 10, obj = [\<lparr>obj_id = 2, obj_x = Fin 0, obj_y = Fin 2\<rparr>,
                               \<lparr>obj_id = 3, obj_x = Fin 2, obj_y = Fin 0\<rparr>,
                               \<lparr>obj_id = 4, obj_x = Fin 4, obj_y = Fin 0\<rparr>]\<rparr> \<noteq> [] \<and>
    list_all finite_obj (obj \<lparr>capacity = 1, obj = [\<lparr>obj_id = 1, obj_x = Fin 3, obj_y = Fin 3\<rparr>]\<rparr>) \<and>
    list_all finite_obj (obj \<lparr>capacity = 10, obj = [\<lparr>obj_id = 2, obj_x = Fin 0, obj_y = Fin 2\<rparr>,
                               \<lparr>obj_id = 3, obj_x = Fin 2, obj_y = Fin 0\<rparr>,
                               \<lparr>obj_id = 4, obj_x = Fin 4, obj_y = Fin 0\<rparr>]\<rparr>) \<and>
    csize \<lparr>capacity = 1, obj = [\<lparr>obj_id = 1, obj_x = Fin 3, obj_y = Fin 3\<rparr>]\<rparr> *
    csize \<lparr>capacity = 10, obj = [\<lparr>obj_id = 2, obj_x = Fin 0, obj_y = Fin 2\<rparr>,
                               \<lparr>obj_id = 3, obj_x = Fin 2, obj_y = Fin 0\<rparr>,
                               \<lparr>obj_id = 4, obj_x = Fin 4, obj_y = Fin 0\<rparr>]\<rparr> \<le> INT_MAX \<and>
    (\<exists>lo av hi.
        cluster_distance 1 \<lparr>capacity = 1, obj = [\<lparr>obj_id = 1, obj_x = Fin 3, obj_y = Fin 3\<rparr>]\<rparr>
           \<lparr>capacity = 10, obj = [\<lparr>obj_id = 2, obj_x = Fin 0, obj_y = Fin 2\<rparr>,
                               \<lparr>obj_id = 3, obj_x = Fin 2, obj_y = Fin 0\<rparr>,
                               \<lparr>obj_id = 4, obj_x = Fin 4, obj_y = Fin 0\<rparr>]\<rparr> = Inr lo \<and>
        cluster_distance 0 \<lparr>capacity = 1, obj = [\<lparr>obj_id = 1, obj_x = Fin 3, obj_y = Fin 3\<rparr>]\<rparr>
           \<lparr>capacity = 10, obj = [\<lparr>obj_id = 2, obj_x = Fin 0, obj_y = Fin 2\<rparr>,
                               \<lparr>obj_id = 3, obj_x = Fin 2, obj_y = Fin 0\<rparr>,
                               \<lparr>obj_id = 4, obj_x = Fin 4, obj_y = Fin 0\<rparr>]\<rparr> = Inr av \<and>
        cluster_distance 2 \<lparr>capacity = 1, obj = [\<lparr>obj_id = 1, obj_x = Fin 3, obj_y = Fin 3\<rparr>]\<rparr>
           \<lparr>capacity = 10, obj = [\<lparr>obj_id = 2, obj_x = Fin 0, obj_y = Fin 2\<rparr>,
                               \<lparr>obj_id = 3, obj_x = Fin 2, obj_y = Fin 0\<rparr>,
                               \<lparr>obj_id = 4, obj_x = Fin 4, obj_y = Fin 0\<rparr>]\<rparr> = Inr hi \<and>
        fge hi lo \<and> fle_within (4 / 2 ^ 24) lo av \<and> fle_within (4 / 2 ^ 24) av hi))"
proof -
  let ?C = "\<lparr>capacity = 1, obj = [\<lparr>obj_id = 1, obj_x = Fin 3, obj_y = Fin 3\<rparr>]\<rparr>"
  let ?E = "\<lparr>capacity = 1, obj = [\<lparr>obj_id = 2, obj_x = Fin 0, obj_y = Fin 2\<rparr>]\<rparr>"
  let ?D = "\<lparr>capacity = 10, obj = [\<lparr>obj_id = 2, obj_x = Fin 0, obj_y = Fin 2\<rparr>,
                              \<lparr>obj_id = 3, obj_x = Fin 2, obj_y = Fin 0\<rparr>,
                              \<lparr>obj_id = 4, obj_x = Fin 4, obj_y = Fin 0\<rparr>]\<rparr>"
  have hC: "obj ?C \<noteq> []" "list_all finite_obj (obj ?C)" by (simp_all add: finite_obj_def)
  have hE: "obj ?E \<noteq> []" "list_all finite_obj (obj ?E)" by (simp_all add: finite_obj_def)
  have hD: "obj ?D \<noteq> []" "list_all finite_obj (obj ?D)" by (simp_all add: finite_obj_def)
  have s1: "csize ?C * csize ?E = 1" by (simp add: csize_def)
  have s3: "csize ?C * csize ?D = 3" by (simp add: csize_def)
  have n1: "csize ?C * csize ?E \<le> INT_MAX" "csize ?C * csize ?E \<le> 2"
    unfolding s1 by (simp_all add: INT_MAX_def)
  have n3: "csize ?C * csize ?D \<le> INT_MAX" unfolding s3 by (simp add: INT_MAX_def)
  from min_distance_le_max_distance[OF hC(1) hE(1) hC(2) hE(2)] n1 s1 obtain lo av hi where
    r: "cluster_distance 1 ?C ?E = Inr lo" "cluster_distance 2 ?C ?E = Inr hi" "fge hi lo"
    "cluster_distance 0 ?C ?E = Inr av"
    "fle_within (of_int (csize ?C * csize ?E + 1) / 2 ^ 24) lo av"
    "fle_within (of_int (csize ?C * csize ?E + 1) / 2 ^ 24) av hi"
    "fge av lo" "fge hi av" "av = lo" "av = hi"
    by blast
  have "fle_within (2 / 2 ^ 24) lo av" "fle_within (2 / 2 ^ 24) av hi"
    using r(5,6) unfolding s1 by simp_all
  then have 1: "\<exists>lo av hi. cluster_distance 1 ?C ?E = Inr lo \<and> cluster_distance 0 ?C ?E = Inr av \<and>
                cluster_distance 2 ?C ?E = Inr hi \<and> fge hi lo \<and>
                fle_within (2 / 2 ^ 24) lo av \<and> fle_within (2 / 2 ^ 24) av hi \<and>
                fge av lo \<and> fge hi av \<and> av = lo \<and> av = hi"
    using r(1,2,3,4,7,8,9,10) by blast
  from min_distance_le_max_distance[OF hC(1) hD(1) hC(2) hD(2)] n3 obtain lo' av' hi' where
    r': "cluster_distance 1 ?C ?D = Inr lo'" "cluster_distance 2 ?C ?D = Inr hi'" "fge hi' lo'"
    "cluster_distance 0 ?C ?D = Inr av'"
    "fle_within (of_int (csize ?C * csize ?D + 1) / 2 ^ 24) lo' av'"
    "fle_within (of_int (csize ?C * csize ?D + 1) / 2 ^ 24) av' hi'"
    by blast
  have "fle_within (4 / 2 ^ 24) lo' av'" "fle_within (4 / 2 ^ 24) av' hi'"
    using r'(5,6) unfolding s3 by simp_all
  then have 2: "\<exists>lo av hi. cluster_distance 1 ?C ?D = Inr lo \<and> cluster_distance 0 ?C ?D = Inr av \<and>
                cluster_distance 2 ?C ?D = Inr hi \<and> fge hi lo \<and>
                fle_within (4 / 2 ^ 24) lo av \<and> fle_within (4 / 2 ^ 24) av hi"
    using r'(1,2,3,4) by blast
  show ?thesis using hC hE hD s1 n3 1 2 by blast
qed

text \<open>
  The claim as it was stated fails on both sides.  The objects \<open>(0,2)\<close>, \<open>(2,0)\<close>,
  \<open>(4,0)\<close>, \<open>(0,4)\<close>, \<open>(6,2)\<close> and \<open>(2,6)\<close> are all at the distance \<open>\<surd>10\<close> from \<open>(3,3)\<close>,
  which is then both the nearest and the furthest neighbour distance.  With the first
  three of them the sum of the distances is rounded upwards and the average is the next
  binary32 number above \<open>\<surd>10\<close>; with the six of them the sum is rounded downwards and
  the average is the next binary32 number below.
\<close>

lemma binary32_float_of_int_49: "float_of_int 6 = Fin 6"
  by code_simp
lemma binary32_to_float_50: "to_float (9947665 / 3145728) = Fin (13263553 / 4194304)"
  by code_simp
lemma binary32_to_float_51: "to_float (26527109 / 2097152) = Fin (6631777 / 524288)"
  by code_simp
lemma binary32_to_float_52: "to_float (33158885 / 2097152) = Fin (8289721 / 524288)"
  by code_simp
lemma binary32_to_float_53: "to_float (39790661 / 2097152) = Fin (9947665 / 524288)"
  by code_simp

lemmas average_values = binary32_float_of_int_0 binary32_float_of_int_49 binary32_sqrt_rnd_3 binary32_to_float_12 binary32_to_float_13 binary32_to_float_14 binary32_to_float_18 binary32_to_float_21 binary32_to_float_22 binary32_to_float_23 binary32_to_float_4 binary32_to_float_5 binary32_to_float_50 binary32_to_float_51 binary32_to_float_52 binary32_to_float_53 binary32_to_float_6

theorem average_outside_min_max_counterexample:
  "cluster_distance 0 \<lparr>capacity = 1, obj = [\<lparr>obj_id = 1, obj_x = Fin 3, obj_y = Fin 3\<rparr>]\<rparr>
     \<lparr>capacity = 10, obj = [\<lparr>obj_id = 2, obj_x = Fin 0, obj_y = Fin 2\<rparr>,
                              \<lparr>obj_id = 3, obj_x = Fin 2, obj_y = Fin 0\<rparr>,
                              \<lparr>obj_id = 4, obj_x = Fin 4, obj_y = Fin 0\<rparr>]\<rparr> = Inr (Fin (13263555 / 4194304)) \<and>
   cluster_distance 2 \<lparr>capacity = 1, obj = [\<lparr>obj_id = 1, obj_x = Fin 3, obj_y = Fin 3\<rparr>]\<rparr>
     \<lparr>capacity = 10, obj = [\<lparr>obj_id = 2, obj_x = Fin 0, obj_y = Fin 2\<rparr>,
                              \<lparr>obj_id = 3, obj_x = Fin 2, obj_y = Fin 0\<rparr>,
                              \<lparr>obj_id = 4, obj_x = Fin 4, obj_y = Fin 0\<rparr>]\<rparr> = Inr (Fin (6631777 / 2097152)) \<and>
   \<not> fge (Fin (6631777 / 2097152)) (Fin (13263555 / 4194304)) \<and>
   cluster_distance 0 \<lparr>capacity = 1, obj = [\<lparr>obj_id = 1, obj_x = Fin 3, obj_y = Fin 3\<rparr>]\<rparr>
     \<lparr>capacity = 10, obj = [\<lparr>obj_id = 2, obj_x = Fin 0, obj_y = Fin 2\<rparr>,
                              \<lparr>obj_id = 3, obj_x = Fin 2, obj_y = Fin 0\<rparr>,
                              \<lparr>obj_id = 4, obj_x = Fin 4, obj_y = Fin 0\<rparr>,
                              \<lparr>obj_id = 5, obj_x = Fin 0, obj_y = Fin 4\<rparr>,
                              \<lparr>obj_id = 6, obj_x = Fin 6, obj_y = Fin 2\<rparr>,
                              \<lparr>obj_id = 7, obj_x = Fin 2, obj_y = Fin 6\<rparr>]\<rparr> = Inr (Fin (13263553 / 4194304)) \<and>
   cluster_distance 1 \<lparr>capacity = 1, obj = [\<lparr>obj_id = 1, obj_x = Fin 3, obj_y = Fin 3\<rparr>]\<rparr>
     \<lparr>capacity = 10, obj = [\<lparr>obj_id = 2, obj_x = Fin 0, obj_y = Fin 2\<rparr>,
                              \<lparr>obj_id = 3, obj_x = Fin 2, obj_y = Fin 0\<rparr>,
                              \<lparr>obj_id = 4, obj_x = Fin 4, obj_y = Fin 0\<rparr>,
                              \<lparr>obj_id = 5, obj_x = Fin 0, obj_y = Fin 4\<rparr>,
                              \<lparr>obj_id = 6, obj_x = Fin 6, obj_y = Fin 2\<rparr>,
                              \<lparr>obj_id = 7, obj_x = Fin 2, obj_y = Fin 6\<rparr>]\<rparr> = Inr (Fin (6631777 / 2097152)) \<and>
   \<not> fge (Fin (13263553 / 4194304)) (Fin (6631777 / 2097152))"
  by (simp add: cluster_distance_def csize_def INT_MAX_def obj_distance_def fsub_def flt_def
        average_values)

end
